theory Spec2Isabelle
  imports Main "HOL-Library.Multiset" "HOL-Library.AList"
begin

section \<open>Python values and errors\<close>

text \<open>
  The exceptions the modelled code can raise. A function of the source that can raise
  returns \<open>py_error + 'a\<close>, with \<open>Inl\<close> for the exception.
\<close>

datatype py_error = IndexError | KeyError | ZeroDivisionError | AttributeError | TypeError

text \<open>\<^verbatim>\<open>xs[i]\<close> on a Python list: a negative index counts from the end, an index out of
  range raises IndexError.\<close>

definition py_index :: "'a list \<Rightarrow> int \<Rightarrow> py_error + 'a" where
  "py_index xs i =
     (if 0 \<le> i \<and> i < int (length xs) then Inr (xs ! nat i)
      else if i < 0 \<and> - int (length xs) \<le> i then Inr (xs ! nat (int (length xs) + i))
      else Inl IndexError)"

text \<open>\<^verbatim>\<open>a % b\<close> on Python ints: the result has the sign of the divisor, as \<open>mod\<close> on
  \<open>int\<close> has; a zero divisor raises.\<close>

definition py_mod :: "int \<Rightarrow> int \<Rightarrow> py_error + int" where
  "py_mod a b = (if b = 0 then Inl ZeroDivisionError else Inr (a mod b))"

text \<open>\<^verbatim>\<open>range(start, stop, step)\<close> for a positive step (the only use in the source).\<close>

function py_range :: "int \<Rightarrow> int \<Rightarrow> int \<Rightarrow> int list" where
  "py_range start stop step =
     (if 0 < step \<and> start < stop then start # py_range (start + step) stop step else [])"
  by pat_completeness auto
termination
  by (relation "measure (\<lambda>(start, stop, step). nat (stop - start))") auto

declare py_range.simps [simp del]

section \<open>Resource keys\<close>

text \<open>\<^verbatim>\<open>def build_offsets(): return list(range(6, 241, 6))\<close>\<close>

definition build_offsets :: "int list" where
  "build_offsets = py_range 6 241 6"

definition NEIGHBOR_PREFETCH :: int where
  "NEIGHBOR_PREFETCH = 2"

definition DEFAULT_MAX_CONCURRENT :: int where
  "DEFAULT_MAX_CONCURRENT = 4"

section \<open>Priority planner: \<^verbatim>\<open>MainWindow._build_priority_offsets\<close>\<close>

text \<open>The two locals of the method: the list \<^verbatim>\<open>order\<close> and the set \<^verbatim>\<open>seen\<close>.\<close>

record plan_state =
  order :: "int list"
  seen :: "int set"

text \<open>The test-and-append both \<^verbatim>\<open>add_index\<close> and the final loop perform.\<close>

definition place :: "int \<Rightarrow> plan_state \<Rightarrow> plan_state" where
  "place offset st =
     (if offset \<notin> seen st
      then st\<lparr>order := order st @ [offset], seen := insert offset (seen st)\<rparr>
      else st)"

text \<open>The nested \<^verbatim>\<open>add_index(idx)\<close>: \<^verbatim>\<open>offset = self.offsets[idx]\<close> can raise.\<close>

definition add_index :: "int list \<Rightarrow> int \<Rightarrow> plan_state \<Rightarrow> py_error + plan_state" where
  "add_index offsets idx st =
     (case py_index offsets idx of
        Inl e \<Rightarrow> Inl e
      | Inr offset \<Rightarrow> Inr (place offset st))"

text \<open>\<^verbatim>\<open>for delta in range(1, NEIGHBOR_PREFETCH + 1)\<close>: the index after, then the index before,
  both modulo \<^verbatim>\<open>total\<close>.\<close>

fun neighbor_loop ::
  "int list \<Rightarrow> int \<Rightarrow> int \<Rightarrow> int list \<Rightarrow> plan_state \<Rightarrow> py_error + plan_state" where
  "neighbor_loop offsets total_n current_index [] st = Inr st"
| "neighbor_loop offsets total_n current_index (delta # deltas) st =
     (case py_mod (current_index + delta) total_n of
        Inl e \<Rightarrow> Inl e
      | Inr after \<Rightarrow>
          (case add_index offsets after st of
             Inl e \<Rightarrow> Inl e
           | Inr st1 \<Rightarrow>
               (case py_mod (current_index - delta) total_n of
                  Inl e \<Rightarrow> Inl e
                | Inr before \<Rightarrow>
                    (case add_index offsets before st1 of
                       Inl e \<Rightarrow> Inl e
                     | Inr st2 \<Rightarrow> neighbor_loop offsets total_n current_index deltas st2))))"

text \<open>\<^verbatim>\<open>for offset in self.offsets: if offset not in seen: ...\<close>\<close>

fun fill_rest :: "int list \<Rightarrow> plan_state \<Rightarrow> plan_state" where
  "fill_rest [] st = st"
| "fill_rest (offset # rest) st = fill_rest rest (place offset st)"

definition build_priority_offsets :: "int list \<Rightarrow> int \<Rightarrow> int \<Rightarrow> py_error + int list" where
  "build_priority_offsets offsets current_index neighbor_prefetch =
     (case add_index offsets current_index \<lparr>order = [], seen = {}\<rparr> of
        Inl e \<Rightarrow> Inl e
      | Inr st0 \<Rightarrow>
          (case neighbor_loop offsets (int (length offsets)) current_index
                  (py_range 1 (neighbor_prefetch + 1) 1) st0 of
             Inl e \<Rightarrow> Inl e
           | Inr st1 \<Rightarrow> Inr (order (fill_rest offsets st1))))"

text \<open>The loop invariant of the planner: \<^verbatim>\<open>seen\<close> holds the keys of \<^verbatim>\<open>order\<close>, which has no
  duplicate and only keys of the domain.\<close>

definition plan_inv :: "int list \<Rightarrow> plan_state \<Rightarrow> bool" where
  "plan_inv offsets st =
     (seen st = set (order st) \<and> distinct (order st) \<and> set (order st) \<subseteq> set offsets)"

section \<open>Strings of integers\<close>

text \<open>\<^verbatim>\<open>str(n)\<close> for a Python int: decimal digits, a leading minus sign when negative.\<close>

definition digit_char :: "nat \<Rightarrow> char" where
  "digit_char d = ''0123456789'' ! (d mod 10)"

fun str_nat :: "nat \<Rightarrow> string" where
  "str_nat n = (if n < 10 then [digit_char n] else str_nat (n div 10) @ [digit_char (n mod 10)])"

declare str_nat.simps [simp del]

definition py_str :: "int \<Rightarrow> string" where
  "py_str i = (if i < 0 then CHR ''-'' # str_nat (nat (- i)) else str_nat (nat i))"

text \<open>The format specification \<^verbatim>\<open>{:03d}\<close>: at least three characters, zeros after the sign.\<close>

definition zero_pad :: "nat \<Rightarrow> string \<Rightarrow> string" where
  "zero_pad w ds = replicate (w - length ds) CHR ''0'' @ ds"

definition format_03d :: "int \<Rightarrow> string" where
  "format_03d i =
     (if i < 0 then CHR ''-'' # zero_pad 2 (str_nat (nat (- i))) else zero_pad 3 (str_nat (nat i)))"

text \<open>\<^verbatim>\<open>BASE_URL.format(hour=offset)\<close>\<close>

definition format_url :: "int \<Rightarrow> string" where
  "format_url hour =
     ''https://services.meteored.com/img/models/ecmwf/ECMWF_'' @ format_03d hour
       @ ''_ES_SFC_es-ES_es.png''"

section \<open>JSON values\<close>

text \<open>
  What \<^verbatim>\<open>json.loads\<close> can return: \<^verbatim>\<open>None\<close>, a bool, a number, a str, a list or a dict
  with str keys. A dict is an association list in insertion order, read with \<open>map_of\<close> and
  written with \<open>AList.update\<close> (an existing key keeps its place, a new key goes last, as in
  Python). The code never looks inside a number, so an integer stands for any number.
\<close>

datatype json =
    JNull
  | JBool bool
  | JNum int
  | JStr string
  | JArr "json list"
  | JObj "(string \<times> json) list"

text \<open>Substring test, Python's \<^verbatim>\<open>needle in hay\<close> on two strs.\<close>

fun starts_with :: "string \<Rightarrow> string \<Rightarrow> bool" where
  "starts_with [] hay = True"
| "starts_with (c # cs) [] = False"
| "starts_with (c # cs) (h # hs) = (c = h \<and> starts_with cs hs)"

fun str_contains :: "string \<Rightarrow> string \<Rightarrow> bool" where
  "str_contains needle [] = (needle = [])"
| "str_contains needle (h # hs) = (starts_with needle (h # hs) \<or> str_contains needle hs)"

text \<open>\<^verbatim>\<open>name in entry\<close> for a str \<^verbatim>\<open>name\<close>: key membership on a dict, element
  membership on a list, substring on a str; any other value is not iterable.\<close>

definition py_in :: "string \<Rightarrow> json \<Rightarrow> py_error + bool" where
  "py_in name entry =
     (case entry of
        JObj members \<Rightarrow> Inr (map_of members name \<noteq> None)
      | JArr items \<Rightarrow> Inr (JStr name \<in> set items)
      | JStr hay \<Rightarrow> Inr (str_contains name hay)
      | _ \<Rightarrow> Inl TypeError)"

text \<open>\<^verbatim>\<open>entry[name]\<close> for a str \<^verbatim>\<open>name\<close>: only a dict can be indexed by a str.\<close>

definition py_getitem :: "json \<Rightarrow> string \<Rightarrow> py_error + json" where
  "py_getitem entry name =
     (case entry of
        JObj members \<Rightarrow> (case map_of members name of None \<Rightarrow> Inl KeyError | Some v \<Rightarrow> Inr v)
      | _ \<Rightarrow> Inl TypeError)"

text \<open>\<^verbatim>\<open>entry[name] = v\<close>\<close>

definition py_setitem :: "json \<Rightarrow> string \<Rightarrow> json \<Rightarrow> py_error + json" where
  "py_setitem entry name v =
     (case entry of
        JObj members \<Rightarrow> Inr (JObj (AList.update name v members))
      | _ \<Rightarrow> Inl TypeError)"

section \<open>Validator store: \<^verbatim>\<open>class MetadataCache\<close>\<close>

text \<open>
  The file at \<^verbatim>\<open>self.path\<close> is modelled up to parsing: its text either makes
  \<^verbatim>\<open>json.loads(self.path.read_text(...))\<close> raise (\<open>Unparsable\<close>) or parses to a JSON value.
  \<^verbatim>\<open>json.dumps\<close> of a value parses back to that value.
\<close>

datatype document = Unparsable | Parsed json

text \<open>The object's fields \<^verbatim>\<open>data\<close> and \<^verbatim>\<open>_dirty\<close>, and the file at \<^verbatim>\<open>path\<close>: \<open>disk\<close> is
  \<open>None\<close> when the file does not exist, \<open>disk_writes\<close> counts the calls of \<^verbatim>\<open>write_text\<close>.\<close>

record metadata_cache =
  data :: json
  dirty :: bool
  disk :: "document option"
  disk_writes :: nat

definition MetadataCache_load :: "metadata_cache \<Rightarrow> metadata_cache" where
  "MetadataCache_load s =
     (case disk s of
        None \<Rightarrow> s
      | Some Unparsable \<Rightarrow> s\<lparr>data := JObj []\<rparr>
      | Some (Parsed j) \<Rightarrow> s\<lparr>data := j\<rparr>)"

text \<open>\<^verbatim>\<open>MetadataCache.__init__\<close>, given the state of the file.\<close>

definition MetadataCache_init :: "document option \<Rightarrow> metadata_cache" where
  "MetadataCache_init file =
     MetadataCache_load \<lparr>data = JObj [], dirty = False, disk = file, disk_writes = 0\<rparr>"

text \<open>One step of \<^verbatim>\<open>headers_for\<close>: \<^verbatim>\<open>if name in entry: headers[name] = entry[name]\<close>\<close>

definition copy_field ::
  "string \<Rightarrow> json \<Rightarrow> (string \<times> json) list \<Rightarrow> py_error + (string \<times> json) list" where
  "copy_field name entry headers =
     (case py_in name entry of
        Inl e \<Rightarrow> Inl e
      | Inr False \<Rightarrow> Inr headers
      | Inr True \<Rightarrow>
          (case py_getitem entry name of
             Inl e \<Rightarrow> Inl e
           | Inr v \<Rightarrow> Inr (AList.update name v headers)))"

text \<open>\<^verbatim>\<open>self.data.get(str(offset), {})\<close> needs \<^verbatim>\<open>self.data\<close> to be a dict: no other JSON
  value has a \<^verbatim>\<open>get\<close> attribute.\<close>

definition MetadataCache_headers_for ::
  "metadata_cache \<Rightarrow> int \<Rightarrow> py_error + (string \<times> json) list" where
  "MetadataCache_headers_for s offset =
     (case data s of
        JObj table \<Rightarrow>
          (let entry = (case map_of table (py_str offset) of None \<Rightarrow> JObj [] | Some e \<Rightarrow> e)
           in case copy_field ''etag'' entry [] of
                Inl e \<Rightarrow> Inl e
              | Inr headers \<Rightarrow> copy_field ''last_modified'' entry headers)
      | _ \<Rightarrow> Inl AttributeError)"

text \<open>One step of \<^verbatim>\<open>update\<close>: \<^verbatim>\<open>if v: entry[name] = v\<close>, where \<^verbatim>\<open>v\<close> is \<^verbatim>\<open>None\<close> or a
  str (\<^verbatim>\<open>meta.get(...)\<close> in the caller); \<^verbatim>\<open>None\<close> and the empty str are false.\<close>

definition set_field :: "string \<Rightarrow> string option \<Rightarrow> json \<Rightarrow> py_error + json" where
  "set_field name v entry =
     (case v of
        None \<Rightarrow> Inr entry
      | Some val \<Rightarrow> if val \<noteq> [] then py_setitem entry name (JStr val) else Inr entry)"

text \<open>
  \<^verbatim>\<open>update\<close>: \<^verbatim>\<open>setdefault\<close> returns the record stored under the key, a new empty dict when
  there was none, and the assignments mutate that record in place; the model writes the
  record back under its key. An exception leaves the store as it was (it can only come from
  \<^verbatim>\<open>setdefault\<close> on a non-dict, or from the first assignment into an existing non-dict
  record).
\<close>

definition MetadataCache_update ::
  "metadata_cache \<Rightarrow> int \<Rightarrow> string option \<Rightarrow> string option \<Rightarrow> py_error + metadata_cache" where
  "MetadataCache_update s offset etag last_modified =
     (case data s of
        JObj table \<Rightarrow>
          (let entry = (case map_of table (py_str offset) of None \<Rightarrow> JObj [] | Some e \<Rightarrow> e)
           in case set_field ''etag'' etag entry of
                Inl e \<Rightarrow> Inl e
              | Inr entry1 \<Rightarrow>
                  (case set_field ''last_modified'' last_modified entry1 of
                     Inl e \<Rightarrow> Inl e
                   | Inr entry2 \<Rightarrow>
                       Inr (s\<lparr>data := JObj (AList.update (py_str offset) entry2 table),
                              dirty := True\<rparr>)))
      | _ \<Rightarrow> Inl AttributeError)"

definition MetadataCache_save :: "metadata_cache \<Rightarrow> metadata_cache" where
  "MetadataCache_save s =
     (if \<not> dirty s then s
      else s\<lparr>disk := Some (Parsed (data s)), disk_writes := disk_writes s + 1, dirty := False\<rparr>)"

text \<open>The shape \<^verbatim>\<open>update\<close> builds and \<^verbatim>\<open>save\<close> writes: a dict whose values are dicts.\<close>

definition is_dict :: "json \<Rightarrow> bool" where
  "is_dict j = (case j of JObj members \<Rightarrow> True | _ \<Rightarrow> False)"

definition table_ok :: "metadata_cache \<Rightarrow> bool" where
  "table_ok s = (case data s of JObj table \<Rightarrow> list_all (is_dict \<circ> snd) table | _ \<Rightarrow> False)"

text \<open>A record with at least one of the two validator fields.\<close>

definition has_validator :: "json \<Rightarrow> bool" where
  "has_validator entry =
     (case entry of
        JObj members \<Rightarrow> map_of members ''etag'' \<noteq> None \<or> map_of members ''last_modified'' \<noteq> None
      | _ \<Rightarrow> False)"

text \<open>The invariant of the data model: every record of the table has a validator field.\<close>

definition store_inv :: "metadata_cache \<Rightarrow> bool" where
  "store_inv s =
     (case data s of JObj table \<Rightarrow> list_all (has_validator \<circ> snd) table | _ \<Rightarrow> False)"

text \<open>Python's truth value of an argument that is \<^verbatim>\<open>None\<close> or a str.\<close>

definition truthy :: "string option \<Rightarrow> bool" where
  "truthy v = (v \<noteq> None \<and> v \<noteq> Some [])"

text \<open>The table has a record under the key of \<^verbatim>\<open>offset\<close>.\<close>

definition has_record :: "metadata_cache \<Rightarrow> int \<Rightarrow> bool" where
  "has_record s offset =
     (case data s of JObj table \<Rightarrow> map_of table (py_str offset) \<noteq> None | _ \<Rightarrow> False)"

section \<open>Content cache: \<^verbatim>\<open>class ForecastCache\<close>\<close>

text \<open>A decoded image, and the bytes of a file or of a response body up to decoding:
  either they decode to an image or they do not.\<close>

datatype pixmap = Pixmap "nat list"

datatype payload = Undecodable | Png pixmap

text \<open>The cache directory: file name to file content.\<close>

type_synonym cache_dir = "string \<rightharpoonup> payload"

definition path_for :: "int \<Rightarrow> string" where
  "path_for offset = ''ECMWF_'' @ format_03d offset @ ''.png''"

definition ForecastCache_load :: "cache_dir \<Rightarrow> int \<Rightarrow> pixmap option" where
  "ForecastCache_load dir offset =
     (case dir (path_for offset) of
        None \<Rightarrow> None
      | Some Undecodable \<Rightarrow> None
      | Some (Png pixmap) \<Rightarrow> Some pixmap)"

definition ForecastCache_save :: "cache_dir \<Rightarrow> int \<Rightarrow> pixmap \<Rightarrow> cache_dir" where
  "ForecastCache_save dir offset pixmap = dir(path_for offset \<mapsto> Png pixmap)"

section \<open>Fetch scheduler: \<^verbatim>\<open>class ImageFetcher\<close>\<close>

datatype cache_load_control = AlwaysNetwork | PreferNetwork

text \<open>A \<^verbatim>\<open>QNetworkRequest\<close> as the scheduler builds it: the URL, the cache-load-control
  attribute and the raw headers it set.\<close>

record request =
  url :: string
  cache_load :: cache_load_control
  raw_headers :: "(string \<times> string) list"

text \<open>
  A finished \<^verbatim>\<open>QNetworkReply\<close> as \<^verbatim>\<open>_on_finished\<close> reads it: the \<^verbatim>\<open>offset\<close> property, the
  HTTP status attribute (\<open>None\<close> when unset), the ETag and Last-Modified headers decoded and
  stripped (empty when absent), \<^verbatim>\<open>error()\<close> (\<open>None\<close> for \<^verbatim>\<open>NoError\<close>, otherwise
  \<^verbatim>\<open>errorString()\<close>) and the body.
\<close>

record reply =
  reply_offset :: int
  status :: "int option"
  reply_etag :: string
  reply_last_modified :: string
  reply_error :: "string option"
  body :: payload

text \<open>The five signals, with their arguments.\<close>

datatype event =
    ImageLoaded int pixmap "(string \<times> string) list"
  | NotModified int
  | ImageError int string
  | ProgressChanged int int
  | BatchFinished

text \<open>
  The fields of the object (\<^verbatim>\<open>_done\<close> and \<^verbatim>\<open>_total\<close> are \<open>n_done\<close> and \<open>n_total\<close>), and
  what it does to the outside: \<open>sent\<close> lists the requests given to \<^verbatim>\<open>manager.get\<close>,
  \<open>pending\<close> the \<^verbatim>\<open>offset\<close> properties of the replies that \<^verbatim>\<open>manager.get\<close> returned and
  that have not finished, \<open>emitted\<close> the signals emitted, all oldest first.
\<close>

record image_fetcher =
  queue :: "int list"
  headers_by_offset :: "int \<rightharpoonup> (string \<times> string) list"
  in_flight :: int
  n_done :: int
  n_total :: int
  max_concurrent :: int
  force_network :: bool
  sent :: "request list"
  pending :: "int list"
  emitted :: "event list"

definition ImageFetcher_init :: image_fetcher where
  "ImageFetcher_init =
     \<lparr>queue = [], headers_by_offset = Map.empty, in_flight = 0, n_done = 0, n_total = 0,
      max_concurrent = DEFAULT_MAX_CONCURRENT, force_network = False,
      sent = [], pending = [], emitted = []\<rparr>"

definition ImageFetcher_set_max_concurrent :: "image_fetcher \<Rightarrow> int \<Rightarrow> image_fetcher" where
  "ImageFetcher_set_max_concurrent s v = s\<lparr>max_concurrent := max 1 v\<rparr>"

text \<open>The conditional headers of \<^verbatim>\<open>_start_more\<close>: \<^verbatim>\<open>etag = headers.get("etag")\<close>,
  \<^verbatim>\<open>if etag: request.setRawHeader(b"If-None-Match", ...)\<close>, and the same for
  \<^verbatim>\<open>last_modified\<close>. The header values are strs.\<close>

definition conditional_headers :: "(string \<times> string) list \<Rightarrow> (string \<times> string) list" where
  "conditional_headers headers =
     (case map_of headers ''etag'' of
        None \<Rightarrow> []
      | Some etag \<Rightarrow> if etag \<noteq> [] then [(''If-None-Match'', etag)] else [])
     @ (case map_of headers ''last_modified'' of
          None \<Rightarrow> []
        | Some last_modified \<Rightarrow>
            if last_modified \<noteq> [] then [(''If-Modified-Since'', last_modified)] else [])"

text \<open>The request the loop body builds for one offset, from \<^verbatim>\<open>self._force_network\<close> and
  \<^verbatim>\<open>self._headers_by_offset\<close>.\<close>

definition build_request ::
  "bool \<Rightarrow> (int \<rightharpoonup> (string \<times> string) list) \<Rightarrow> int \<Rightarrow> request" where
  "build_request force by_offset offset =
     \<lparr>url = format_url offset,
      cache_load = (if force then AlwaysNetwork else PreferNetwork),
      raw_headers =
        conditional_headers (case by_offset offset of None \<Rightarrow> [] | Some headers \<Rightarrow> headers)\<rparr>"

text \<open>The body of the loop of \<^verbatim>\<open>_start_more\<close>, run only when the queue is not empty.\<close>

definition start_more_body :: "image_fetcher \<Rightarrow> image_fetcher" where
  "start_more_body s =
     (let offset = hd (queue s)
      in s\<lparr>queue := tl (queue s),
           sent := sent s @ [build_request (force_network s) (headers_by_offset s) offset],
           pending := pending s @ [offset],
           in_flight := in_flight s + 1\<rparr>)"

function ImageFetcher_start_more :: "image_fetcher \<Rightarrow> image_fetcher" where
  "ImageFetcher_start_more s =
     (if in_flight s < max_concurrent s \<and> queue s \<noteq> []
      then ImageFetcher_start_more (start_more_body s)
      else s)"
  by pat_completeness auto
termination
  by (relation "measure (\<lambda>s. length (queue s))") (auto simp: start_more_body_def Let_def)

declare ImageFetcher_start_more.simps [simp del]

text \<open>\<^verbatim>\<open>headers_by_offset or {}\<close>: \<^verbatim>\<open>None\<close> (and the empty dict) give the empty dict.\<close>

definition ImageFetcher_fetch_offsets ::
  "image_fetcher \<Rightarrow> int list \<Rightarrow> (int \<rightharpoonup> (string \<times> string) list) option \<Rightarrow> bool
     \<Rightarrow> image_fetcher" where
  "ImageFetcher_fetch_offsets s offsets by_offset force =
     (let s1 = s\<lparr>queue := offsets,
                 headers_by_offset := (case by_offset of None \<Rightarrow> Map.empty | Some m \<Rightarrow> m),
                 force_network := force,
                 in_flight := 0,
                 n_done := 0,
                 n_total := int (length offsets)\<rparr>
      in if n_total s1 = 0 then s1\<lparr>emitted := emitted s1 @ [BatchFinished]\<rparr>
         else ImageFetcher_start_more s1)"

text \<open>The dict \<^verbatim>\<open>meta\<close> of \<^verbatim>\<open>_on_finished\<close>.\<close>

definition reply_meta :: "reply \<Rightarrow> (string \<times> string) list" where
  "reply_meta r =
     (if reply_etag r \<noteq> [] then [(''etag'', reply_etag r)] else [])
     @ (if reply_last_modified r \<noteq> [] then [(''last_modified'', reply_last_modified r)] else [])"

text \<open>The classification of \<^verbatim>\<open>_on_finished\<close>: the one per-key signal it emits.\<close>

definition classify :: "reply \<Rightarrow> event" where
  "classify r =
     (if status r = Some 304 then NotModified (reply_offset r)
      else case reply_error r of
             None \<Rightarrow>
               (case body r of
                  Png pixmap \<Rightarrow> ImageLoaded (reply_offset r) pixmap (reply_meta r)
                | Undecodable \<Rightarrow> ImageError (reply_offset r) ''invalid image data'')
           | Some error_string \<Rightarrow> ImageError (reply_offset r) error_string)"

text \<open>\<^verbatim>\<open>_on_finished\<close>; \<^verbatim>\<open>reply.deleteLater()\<close> ends the reply.\<close>

definition ImageFetcher_on_finished :: "image_fetcher \<Rightarrow> reply \<Rightarrow> image_fetcher" where
  "ImageFetcher_on_finished s r =
     (let s1 = s\<lparr>emitted := emitted s @ [classify r],
                 pending := remove1 (reply_offset r) (pending s),
                 in_flight := in_flight s - 1,
                 n_done := n_done s + 1\<rparr>;
          s2 = s1\<lparr>emitted := emitted s1 @ [ProgressChanged (n_done s1) (n_total s1)]\<rparr>
      in if n_done s2 = n_total s2 then s2\<lparr>emitted := emitted s2 @ [BatchFinished]\<rparr>
         else ImageFetcher_start_more s2)"

subsection \<open>The scheduler's callers\<close>

text \<open>
  What can happen to a scheduler: its owner sets the cap or starts a batch, or the network
  manager reports a finished reply. The owner acts only between batches
  (\<^verbatim>\<open>MainWindow.refresh_images\<close> returns at once while \<^verbatim>\<open>_refresh_in_progress\<close> is set, and
  \<^verbatim>\<open>set_max_concurrent\<close> is called from \<^verbatim>\<open>MainWindow.__init__\<close> only), and the manager
  reports only replies it has returned from \<^verbatim>\<open>get\<close> and not reported yet.
\<close>

datatype action =
    SetMaxConcurrent int
  | FetchOffsets "int list" "(int \<rightharpoonup> (string \<times> string) list) option" bool
  | Finished reply

definition idle :: "image_fetcher \<Rightarrow> bool" where
  "idle s = (pending s = [])"

fun exec :: "image_fetcher \<Rightarrow> action \<Rightarrow> image_fetcher option" where
  "exec s (SetMaxConcurrent v) =
     (if idle s then Some (ImageFetcher_set_max_concurrent s v) else None)"
| "exec s (FetchOffsets offsets by_offset force) =
     (if idle s then Some (ImageFetcher_fetch_offsets s offsets by_offset force) else None)"
| "exec s (Finished r) =
     (if reply_offset r \<in> set (pending s) then Some (ImageFetcher_on_finished s r) else None)"

fun execs :: "image_fetcher \<Rightarrow> action list \<Rightarrow> image_fetcher option" where
  "execs s [] = Some s"
| "execs s (a # as) = (case exec s a of None \<Rightarrow> None | Some s' \<Rightarrow> execs s' as)"

text \<open>
  The invariant of the scheduler between calls: the cap is at least 1, \<^verbatim>\<open>_in_flight\<close> counts
  the replies not finished and is at most the cap, requests wait in the queue only when the
  cap is reached, and every key of the batch is done, in flight or queued.
\<close>

definition fetcher_inv :: "image_fetcher \<Rightarrow> bool" where
  "fetcher_inv s =
     (1 \<le> max_concurrent s
      \<and> in_flight s = int (length (pending s))
      \<and> in_flight s \<le> max_concurrent s
      \<and> (queue s = [] \<or> in_flight s = max_concurrent s)
      \<and> n_done s + in_flight s + int (length (queue s)) = n_total s)"

section \<open>The scheduler's subscriber: the slots of \<^verbatim>\<open>class MainWindow\<close>\<close>

text \<open>
  The fields the slots of the five signals read and write. The labels, the displayed frame
  and the text recognition belong to the display and are left out.
\<close>

record main_window =
  frames :: "int \<rightharpoonup> pixmap option"
  cache :: cache_dir
  metadata :: metadata_cache
  fetcher :: image_fetcher
  refresh_in_progress :: bool
  progress_updated :: int
  progress_unchanged :: int

text \<open>\<^verbatim>\<open>_on_image_loaded\<close>: an exception of \<^verbatim>\<open>metadata.update\<close> ends the slot.\<close>

definition MainWindow_on_image_loaded ::
  "main_window \<Rightarrow> int \<Rightarrow> pixmap \<Rightarrow> (string \<times> string) list \<Rightarrow> py_error + main_window" where
  "MainWindow_on_image_loaded w offset pixmap meta =
     (let w1 = w\<lparr>frames := (frames w)(offset \<mapsto> Some pixmap),
                 cache := ForecastCache_save (cache w) offset pixmap\<rparr>
      in case MetadataCache_update (metadata w1) offset
                (map_of meta ''etag'') (map_of meta ''last_modified'') of
           Inl e \<Rightarrow> Inl e
         | Inr m \<Rightarrow> Inr (w1\<lparr>metadata := m, progress_updated := progress_updated w1 + 1\<rparr>))"

definition MainWindow_on_image_not_modified :: "main_window \<Rightarrow> int \<Rightarrow> main_window" where
  "MainWindow_on_image_not_modified w offset = w\<lparr>progress_unchanged := progress_unchanged w + 1\<rparr>"

definition MainWindow_on_batch_finished :: "main_window \<Rightarrow> main_window" where
  "MainWindow_on_batch_finished w =
     w\<lparr>refresh_in_progress := False, metadata := MetadataCache_save (metadata w)\<rparr>"

text \<open>The slot connected to each signal. \<^verbatim>\<open>_on_image_error\<close> and \<^verbatim>\<open>_on_fetch_progress\<close>
  only set labels.\<close>

fun dispatch :: "main_window \<Rightarrow> event \<Rightarrow> py_error + main_window" where
  "dispatch w (ImageLoaded offset pixmap meta) = MainWindow_on_image_loaded w offset pixmap meta"
| "dispatch w (NotModified offset) = Inr (MainWindow_on_image_not_modified w offset)"
| "dispatch w (ImageError offset error_text) = Inr w"
| "dispatch w (ProgressChanged d t) = Inr w"
| "dispatch w BatchFinished = Inr (MainWindow_on_batch_finished w)"

fun dispatch_all :: "main_window \<Rightarrow> event list \<Rightarrow> py_error + main_window" where
  "dispatch_all w [] = Inr w"
| "dispatch_all w (e # es) =
     (case dispatch w e of Inl err \<Rightarrow> Inl err | Inr w' \<Rightarrow> dispatch_all w' es)"

text \<open>
  The manager's \<^verbatim>\<open>finished\<close> signal in a window: \<^verbatim>\<open>_on_finished\<close> runs, and each signal it
  emits runs its slot. No slot reads or writes the scheduler, so the slots are run here after
  \<^verbatim>\<open>_on_finished\<close>, in the order of emission.
\<close>

definition finished_signal :: "main_window \<Rightarrow> reply \<Rightarrow> py_error + main_window" where
  "finished_signal w r =
     (let f = ImageFetcher_on_finished (fetcher w) r
      in dispatch_all (w\<lparr>fetcher := f\<rparr>) (drop (length (emitted (fetcher w))) (emitted f)))"

section \<open>Sample inputs\<close>

text \<open>A reply with status 304 for a key, with no validator header and no body.\<close>

definition reply_304 :: "int \<Rightarrow> reply" where
  "reply_304 offset =
     \<lparr>reply_offset = offset, status = Some 304, reply_etag = [], reply_last_modified = [],
      reply_error = None, body = Undecodable\<rparr>"

text \<open>A window in the middle of a batch of one key: the request for offset 6 is in flight,
  nothing is cached and the validator store is empty.\<close>

definition window_awaiting_6 :: main_window where
  "window_awaiting_6 =
     \<lparr>frames = [6 \<mapsto> None],
      cache = Map.empty,
      metadata = MetadataCache_init None,
      fetcher =
        \<lparr>queue = [], headers_by_offset = Map.empty, in_flight = 1, n_done = 0, n_total = 1,
         max_concurrent = 4, force_network = False,
         sent = [build_request False Map.empty 6], pending = [6], emitted = []\<rparr>,
      refresh_in_progress = True,
      progress_updated = 0,
      progress_unchanged = 0\<rparr>"

section \<open>Properties of the priority planner\<close>

lemma build_offsets_list:
  "build_offsets = [6,12,18,24,30,36,42,48,54,60,66,72,78,84,90,96,102,108,114,120,126,132,138,144,150,156,162,168,174,180,186,192,198,204,210,216,222,228,234,240]"
  by (simp add: build_offsets_def py_range.simps)

lemma distinct_build_offsets: "distinct build_offsets"
  by (simp add: build_offsets_list)

lemma py_index_in_range:
  assumes "0 \<le> i" and "i < int (length xs)"
  shows "\<exists>x. py_index xs i = Inr x \<and> x \<in> set xs"
  using assms by (simp add: py_index_def)

lemma place_inv:
  assumes "plan_inv offsets st" and "x \<in> set offsets"
  shows "plan_inv offsets (place x st)"
  using assms by (auto simp: plan_inv_def place_def)

lemma place_seen: "seen (place x st) = insert x (seen st)"
  by (auto simp: place_def)

lemma add_index_inv:
  assumes "plan_inv offsets st" and "0 \<le> i" and "i < int (length offsets)"
  shows "\<exists>st'. add_index offsets i st = Inr st' \<and> plan_inv offsets st'"
proof -
  from py_index_in_range [OF assms(2,3)] obtain x
    where x: "py_index offsets i = Inr x" "x \<in> set offsets" by blast
  with place_inv [OF assms(1) x(2)] show ?thesis
    by (simp add: add_index_def)
qed

lemma neighbor_loop_inv:
  assumes "offsets \<noteq> []" and "plan_inv offsets st"
  shows "\<exists>st'. neighbor_loop offsets (int (length offsets)) cur deltas st = Inr st'
           \<and> plan_inv offsets st'"
  using assms(2)
proof (induction deltas arbitrary: st)
  case Nil
  then show ?case by simp
next
  case (Cons d ds)
  let ?n = "int (length offsets)"
  from assms(1) have n: "0 < ?n" by simp
  have a: "0 \<le> (cur + d) mod ?n" "(cur + d) mod ?n < ?n"
    using n by simp_all
  have b: "0 \<le> (cur - d) mod ?n" "(cur - d) mod ?n < ?n"
    using n by simp_all
  from add_index_inv [OF Cons.prems a] obtain st1
    where st1: "add_index offsets ((cur + d) mod ?n) st = Inr st1" "plan_inv offsets st1"
    by blast
  from add_index_inv [OF st1(2) b] obtain st2
    where st2: "add_index offsets ((cur - d) mod ?n) st1 = Inr st2" "plan_inv offsets st2"
    by blast
  from Cons.IH [OF st2(2)] st1(1) st2(1) n show ?case
    by (simp add: py_mod_def)
qed

lemma fill_rest_inv:
  assumes "plan_inv offsets st" and "set ks \<subseteq> set offsets"
  shows "plan_inv offsets (fill_rest ks st) \<and> seen (fill_rest ks st) = seen st \<union> set ks"
  using assms
proof (induction ks arbitrary: st)
  case Nil
  then show ?case by simp
next
  case (Cons k ks)
  from Cons.prems have "plan_inv offsets (place k st)"
    by (simp add: place_inv)
  with Cons.IH [of "place k st"] Cons.prems(2) show ?case
    by (auto simp: place_seen)
qed

lemma build_priority_offsets_perm:
  assumes "distinct offsets" and "0 \<le> i" and "i < int (length offsets)"
  shows "\<exists>plan. build_priority_offsets offsets i r = Inr plan
           \<and> distinct plan \<and> mset plan = mset offsets"
proof -
  from assms(2,3) have ne: "offsets \<noteq> []" by auto
  have "plan_inv offsets \<lparr>order = [], seen = {}\<rparr>"
    by (simp add: plan_inv_def)
  from add_index_inv [OF this assms(2,3)] obtain st0
    where st0: "add_index offsets i \<lparr>order = [], seen = {}\<rparr> = Inr st0" "plan_inv offsets st0"
    by blast
  from neighbor_loop_inv [OF ne st0(2)] obtain st1
    where st1: "neighbor_loop offsets (int (length offsets)) i (py_range 1 (r + 1) 1) st0 = Inr st1"
      "plan_inv offsets st1"
    by blast
  let ?st = "fill_rest offsets st1"
  from fill_rest_inv [OF st1(2), of offsets]
  have f: "plan_inv offsets ?st" "seen ?st = seen st1 \<union> set offsets" by simp_all
  then have "distinct (order ?st)" "set (order ?st) = set offsets"
    by (auto simp: plan_inv_def)
  then have "distinct (order ?st)" "mset (order ?st) = mset offsets"
    using assms(1) by (simp_all add: set_eq_iff_mset_eq_distinct)
  with st0(1) st1(1) show ?thesis
    by (simp add: build_priority_offsets_def)
qed

text \<open>
  \<^bold>\<open>Claim C5.\<close> For the forty keys 6, 12, ..., 240 and the index of offset 90 (index 14), with
  two neighbours on each side, the plan starts with 90, 96, 84, 102, 78; and for every index
  in range (and every number of neighbours) the planner returns a plan, which has no
  duplicate and is a permutation of the keys.
\<close>

theorem planner_first_five_and_permutation:
  "NEIGHBOR_PREFETCH = 2
   \<and> length build_offsets = 40
   \<and> py_index build_offsets 14 = Inr 90
   \<and> (\<exists>rest. build_priority_offsets build_offsets 14 NEIGHBOR_PREFETCH
                = Inr ([90, 96, 84, 102, 78] @ rest))
   \<and> (\<forall>current_index neighbor_prefetch.
        0 \<le> current_index \<and> current_index < int (length build_offsets) \<longrightarrow>
        (\<exists>plan. build_priority_offsets build_offsets current_index neighbor_prefetch = Inr plan
           \<and> distinct plan \<and> mset plan = mset build_offsets))"
proof -
  have "py_index build_offsets 14 = Inr 90" "length build_offsets = 40"
    by (simp_all add: build_offsets_list py_index_def)
  moreover have "build_priority_offsets build_offsets 14 2 =
      Inr ([90, 96, 84, 102, 78] @ [6,12,18,24,30,36,42,48,54,60,66,72,108,114,120,126,132,
        138,144,150,156,162,168,174,180,186,192,198,204,210,216,222,228,234,240])"
    by (simp add: build_offsets_list build_priority_offsets_def add_index_def py_index_def
        py_mod_def place_def py_range.simps)
  then have "\<exists>rest. build_priority_offsets build_offsets 14 NEIGHBOR_PREFETCH
      = Inr ([90, 96, 84, 102, 78] @ rest)"
    unfolding NEIGHBOR_PREFETCH_def by blast
  moreover have "\<forall>current_index neighbor_prefetch.
        0 \<le> current_index \<and> current_index < int (length build_offsets) \<longrightarrow>
        (\<exists>plan. build_priority_offsets build_offsets current_index neighbor_prefetch = Inr plan
           \<and> distinct plan \<and> mset plan = mset build_offsets)"
    using build_priority_offsets_perm [OF distinct_build_offsets] by blast
  ultimately show ?thesis
    by (simp add: NEIGHBOR_PREFETCH_def)
qed

theorem planner_first_five_and_permutation_witness:
  "length build_offsets = 40
   \<and> (\<exists>plan. build_priority_offsets build_offsets 39 NEIGHBOR_PREFETCH = Inr plan
        \<and> distinct plan \<and> mset plan = mset build_offsets)"
proof -
  have len: "length build_offsets = 40" by (simp add: build_offsets_list)
  then have "(0::int) \<le> 39 \<and> 39 < int (length build_offsets)" by simp
  with planner_first_five_and_permutation len show ?thesis by blast
qed

section \<open>Properties of the validator store\<close>

lemma list_all_update:
  assumes "list_all (P \<circ> snd) table" and "P v"
  shows "list_all (P \<circ> snd) (AList.update k v table)"
  using assms by (induction table) auto

lemma list_all_lookup:
  assumes "list_all (P \<circ> snd) table" and "map_of table k = Some e"
  shows "P e"
  using assms by (induction table) (auto split: if_splits)

lemma set_field_dict:
  "\<exists>members'. set_field name v (JObj members) = Inr (JObj members')
      \<and> (\<forall>k. map_of members k \<noteq> None \<longrightarrow> map_of members' k \<noteq> None)
      \<and> (truthy v \<longrightarrow> map_of members' name \<noteq> None)
      \<and> (\<not> truthy v \<longrightarrow> members' = members)"
  by (cases v) (auto simp: set_field_def py_setitem_def truthy_def update_conv')

lemma update_dict_entry:
  assumes "data s = JObj table"
    and "map_of table (py_str offset) = None \<or> (\<exists>m. map_of table (py_str offset) = Some (JObj m))"
  shows "\<exists>members'. MetadataCache_update s offset etag last_modified =
            Inr (s\<lparr>data := JObj (AList.update (py_str offset) (JObj members') table), dirty := True\<rparr>)
          \<and> (truthy etag \<or> truthy last_modified \<longrightarrow>
                map_of members' ''etag'' \<noteq> None \<or> map_of members' ''last_modified'' \<noteq> None)
          \<and> (\<not> truthy etag \<and> \<not> truthy last_modified \<longrightarrow>
                JObj members' = (case map_of table (py_str offset) of None \<Rightarrow> JObj [] | Some e \<Rightarrow> e))
          \<and> ((case map_of table (py_str offset) of None \<Rightarrow> False
                 | Some e \<Rightarrow> has_validator e) \<longrightarrow> has_validator (JObj members'))"
proof -
  from assms(2) obtain m where m:
    "(case map_of table (py_str offset) of None \<Rightarrow> JObj [] | Some e \<Rightarrow> e) = JObj m"
    by (auto split: option.splits)
  from set_field_dict [of "''etag''" etag m] obtain m1 where m1:
    "set_field ''etag'' etag (JObj m) = Inr (JObj m1)"
    "\<forall>k. map_of m k \<noteq> None \<longrightarrow> map_of m1 k \<noteq> None"
    "truthy etag \<longrightarrow> map_of m1 ''etag'' \<noteq> None"
    "\<not> truthy etag \<longrightarrow> m1 = m"
    by blast
  from set_field_dict [of "''last_modified''" last_modified m1] obtain m2 where m2:
    "set_field ''last_modified'' last_modified (JObj m1) = Inr (JObj m2)"
    "\<forall>k. map_of m1 k \<noteq> None \<longrightarrow> map_of m2 k \<noteq> None"
    "truthy last_modified \<longrightarrow> map_of m2 ''last_modified'' \<noteq> None"
    "\<not> truthy last_modified \<longrightarrow> m2 = m1"
    by blast
  have upd: "MetadataCache_update s offset etag last_modified =
      Inr (s\<lparr>data := JObj (AList.update (py_str offset) (JObj m2) table), dirty := True\<rparr>)"
    using assms(1) m m1(1) m2(1) by (simp add: MetadataCache_update_def)
  have v: "truthy etag \<or> truthy last_modified \<longrightarrow>
      map_of m2 ''etag'' \<noteq> None \<or> map_of m2 ''last_modified'' \<noteq> None"
    using m1(3) m2(2,3) by blast
  have same: "\<not> truthy etag \<and> \<not> truthy last_modified \<longrightarrow>
      JObj m2 = (case map_of table (py_str offset) of None \<Rightarrow> JObj [] | Some e \<Rightarrow> e)"
    using m m1(4) m2(4) by simp
  have keep: "(case map_of table (py_str offset) of None \<Rightarrow> False | Some e \<Rightarrow> has_validator e)
      \<longrightarrow> has_validator (JObj m2)"
    using m m1(2) m2(2) by (auto simp: has_validator_def split: option.splits)
  from upd v same keep show ?thesis by blast
qed

lemma has_validator_is_dict: "has_validator e \<Longrightarrow> is_dict e"
  by (cases e) (simp_all add: has_validator_def is_dict_def)

lemma store_inv_table_ok: "store_inv s \<Longrightarrow> table_ok s"
  by (cases "data s")
    (auto simp: store_inv_def table_ok_def list_all_iff intro: has_validator_is_dict)

lemma table_ok_entry:
  assumes "table_ok s" and "data s = JObj table"
  shows "map_of table key = None \<or> (\<exists>m. map_of table key = Some (JObj m))"
proof (cases "map_of table key")
  case None
  then show ?thesis by simp
next
  case (Some e)
  from assms have "list_all (is_dict \<circ> snd) table"
    by (simp add: table_ok_def)
  from list_all_lookup [OF this Some] have "is_dict e" .
  with Some show ?thesis
    by (cases e) (simp_all add: is_dict_def)
qed

lemma table_ok_data: "table_ok s \<Longrightarrow> \<exists>table. data s = JObj table"
  by (cases "data s") (simp_all add: table_ok_def)

lemma copy_field_dict: "\<exists>h. copy_field name (JObj m) headers = Inr h"
  by (cases "map_of m name") (simp_all add: copy_field_def py_in_def py_getitem_def)

lemma headers_for_table_ok:
  assumes "table_ok s"
  shows "\<exists>h. MetadataCache_headers_for s offset = Inr h"
proof -
  from table_ok_data [OF assms] obtain table where t: "data s = JObj table" by blast
  from table_ok_entry [OF assms t, of "py_str offset"] obtain m where m:
    "(case map_of table (py_str offset) of None \<Rightarrow> JObj [] | Some e \<Rightarrow> e) = JObj m"
    by (auto split: option.splits)
  from copy_field_dict [of "''etag''" m "[]"] obtain h1
    where h1: "copy_field ''etag'' (JObj m) [] = Inr h1" by blast
  from copy_field_dict [of "''last_modified''" m h1] obtain h2
    where h2: "copy_field ''last_modified'' (JObj m) h1 = Inr h2" by blast
  from t m h1 h2 show ?thesis
    by (simp add: MetadataCache_headers_for_def)
qed

lemma headers_for_empty_table:
  assumes "data s = JObj []"
  shows "MetadataCache_headers_for s offset = Inr []"
  using assms
  by (simp add: MetadataCache_headers_for_def copy_field_def py_in_def)

lemma update_table_ok:
  assumes "table_ok s"
  shows "\<exists>s'. MetadataCache_update s offset etag last_modified = Inr s'
           \<and> table_ok s' \<and> dirty s' \<and> disk s' = disk s \<and> disk_writes s' = disk_writes s"
proof -
  from table_ok_data [OF assms] obtain table where t: "data s = JObj table" by blast
  from update_dict_entry [OF t table_ok_entry [OF assms t]] obtain m'
    where u: "MetadataCache_update s offset etag last_modified =
      Inr (s\<lparr>data := JObj (AList.update (py_str offset) (JObj m') table), dirty := True\<rparr>)"
    by blast
  from assms t have "list_all (is_dict \<circ> snd) table"
    by (simp add: table_ok_def)
  then have "list_all (is_dict \<circ> snd) (AList.update (py_str offset) (JObj m') table)"
    by (rule list_all_update) (simp add: is_dict_def)
  with u show ?thesis
    by (simp add: table_ok_def)
qed

lemma update_store_inv:
  assumes "store_inv s" and "truthy etag \<or> truthy last_modified"
  shows "\<exists>s'. MetadataCache_update s offset etag last_modified = Inr s' \<and> store_inv s'
           \<and> has_record s' offset"
proof -
  have ok: "table_ok s" using assms(1) by (rule store_inv_table_ok)
  from table_ok_data [OF ok] obtain table where t: "data s = JObj table" by blast
  from update_dict_entry [OF t table_ok_entry [OF ok t]] assms(2) obtain m'
    where u: "MetadataCache_update s offset etag last_modified =
        Inr (s\<lparr>data := JObj (AList.update (py_str offset) (JObj m') table), dirty := True\<rparr>)"
      and v: "map_of m' ''etag'' \<noteq> None \<or> map_of m' ''last_modified'' \<noteq> None"
    by blast
  from assms(1) t have "list_all (has_validator \<circ> snd) table"
    by (simp add: store_inv_def)
  then have "list_all (has_validator \<circ> snd) (AList.update (py_str offset) (JObj m') table)"
    using v by (intro list_all_update) (simp_all add: has_validator_def)
  with u show ?thesis
    by (simp add: store_inv_def has_record_def update_conv')
qed

lemma list_all_update_iff:
  assumes "list_all (P \<circ> snd) table" and "map_of table k = None"
  shows "list_all (P \<circ> snd) (AList.update k v table) = P v"
  using assms by (induction table) (auto split: if_splits)

lemma update_same_entry:
  assumes "map_of table k = Some e"
  shows "AList.update k e table = table"
  using assms by (induction table) (auto split: if_splits)

lemma update_without_validators:
  assumes "store_inv s" and "\<not> truthy etag" and "\<not> truthy last_modified"
  shows "\<exists>s'. MetadataCache_update s offset etag last_modified = Inr s'
           \<and> (store_inv s' \<longleftrightarrow> has_record s offset)
           \<and> (has_record s offset \<longrightarrow> data s' = data s)
           \<and> has_record s' offset"
proof -
  have ok: "table_ok s" using assms(1) by (rule store_inv_table_ok)
  from table_ok_data [OF ok] obtain table where t: "data s = JObj table" by blast
  from update_dict_entry [OF t table_ok_entry [OF ok t]] assms(2,3) obtain m'
    where u: "MetadataCache_update s offset etag last_modified =
        Inr (s\<lparr>data := JObj (AList.update (py_str offset) (JObj m') table), dirty := True\<rparr>)"
      and same: "JObj m' = (case map_of table (py_str offset) of None \<Rightarrow> JObj [] | Some e \<Rightarrow> e)"
    by blast
  from assms(1) t have inv: "list_all (has_validator \<circ> snd) table"
    by (simp add: store_inv_def)
  let ?s' = "s\<lparr>data := JObj (AList.update (py_str offset) (JObj m') table), dirty := True\<rparr>"
  have rec: "has_record ?s' offset"
    by (simp add: has_record_def update_conv')
  show ?thesis
  proof (cases "map_of table (py_str offset)")
    case None
    with same have "m' = []" by simp
    with list_all_update_iff [OF inv None, of "JObj m'"] have "\<not> store_inv ?s'"
      by (simp add: store_inv_def has_validator_def)
    with u None t rec show ?thesis
      by (simp add: has_record_def)
  next
    case (Some e)
    with same have "AList.update (py_str offset) (JObj m') table = table"
      by (simp add: update_same_entry)
    with u Some t inv rec show ?thesis
      by (simp add: has_record_def store_inv_def)
  qed
qed

lemma init_simps:
  "MetadataCache_init None = \<lparr>data = JObj [], dirty = False, disk = None, disk_writes = 0\<rparr>"
  "MetadataCache_init (Some Unparsable) =
     \<lparr>data = JObj [], dirty = False, disk = Some Unparsable, disk_writes = 0\<rparr>"
  "MetadataCache_init (Some (Parsed j)) =
     \<lparr>data = j, dirty = False, disk = Some (Parsed j), disk_writes = 0\<rparr>"
  by (simp_all add: MetadataCache_init_def MetadataCache_load_def)

lemma py_str_6: "py_str 6 = ''6''"
  by (simp add: py_str_def str_nat.simps digit_char_def)

lemma save_data: "data (MetadataCache_save s) = data s"
  by (simp add: MetadataCache_save_def)

lemma save_dirty:
  assumes "dirty s"
  shows "disk (MetadataCache_save s) = Some (Parsed (data s))"
    and "disk_writes (MetadataCache_save s) = disk_writes s + 1"
  using assms by (simp_all add: MetadataCache_save_def)

lemma headers_for_cong:
  assumes "data s = JObj table" and "data s' = JObj table'"
    and "(case map_of table' (py_str k) of None \<Rightarrow> JObj [] | Some e \<Rightarrow> e) =
         (case map_of table (py_str k) of None \<Rightarrow> JObj [] | Some e \<Rightarrow> e)"
  shows "MetadataCache_headers_for s' k = MetadataCache_headers_for s k"
  using assms by (simp add: MetadataCache_headers_for_def)

lemma update_no_change:
  assumes "table_ok s" and "\<not> truthy etag" and "\<not> truthy last_modified"
    and "MetadataCache_update s offset etag last_modified = Inr s'"
  shows "MetadataCache_headers_for s' k = MetadataCache_headers_for s k"
proof -
  from table_ok_data [OF assms(1)] obtain table where t: "data s = JObj table" by blast
  from update_dict_entry [OF t table_ok_entry [OF assms(1) t]] assms(2,3) obtain m'
    where u: "MetadataCache_update s offset etag last_modified =
        Inr (s\<lparr>data := JObj (AList.update (py_str offset) (JObj m') table), dirty := True\<rparr>)"
      and same: "JObj m' = (case map_of table (py_str offset) of None \<Rightarrow> JObj [] | Some e \<Rightarrow> e)"
    by blast
  from u assms(4) have d: "data s' = JObj (AList.update (py_str offset) (JObj m') table)"
    by auto
  have "(case map_of (AList.update (py_str offset) (JObj m') table) (py_str k) of
           None \<Rightarrow> JObj [] | Some e \<Rightarrow> e) =
        (case map_of table (py_str k) of None \<Rightarrow> JObj [] | Some e \<Rightarrow> e)"
    using same by (simp add: update_conv')
  from headers_for_cong [OF t d this] show ?thesis .
qed

lemma set_field_falsy: "\<not> truthy v \<Longrightarrow> set_field name v entry = Inr entry"
  by (cases v) (auto simp: set_field_def truthy_def)

lemma update_returns:
  assumes "MetadataCache_update s offset etag last_modified = Inr s'"
  shows "\<exists>table entry. data s = JObj table
           \<and> s' = s\<lparr>data := JObj (AList.update (py_str offset) entry table), dirty := True\<rparr>
           \<and> (\<not> truthy etag \<and> \<not> truthy last_modified \<longrightarrow>
                entry = (case map_of table (py_str offset) of None \<Rightarrow> JObj [] | Some e \<Rightarrow> e))"
proof (cases "data s")
  case (JObj table)
  let ?entry = "case map_of table (py_str offset) of None \<Rightarrow> JObj [] | Some e \<Rightarrow> e"
  from assms JObj obtain entry1 entry2 where e:
    "set_field ''etag'' etag ?entry = Inr entry1"
    "set_field ''last_modified'' last_modified entry1 = Inr entry2"
    "s' = s\<lparr>data := JObj (AList.update (py_str offset) entry2 table), dirty := True\<rparr>"
    by (auto simp: MetadataCache_update_def Let_def split: sum.splits)
  have "\<not> truthy etag \<and> \<not> truthy last_modified \<longrightarrow> entry2 = ?entry"
    using e(1,2) by (auto simp: set_field_falsy)
  with JObj e(3) show ?thesis by blast
qed (use assms in \<open>simp_all add: MetadataCache_update_def\<close>)

lemma image_loaded_absent_validators:
  assumes "reply_etag r = []" and "reply_last_modified r = []"
  shows "MainWindow_on_image_loaded w offset pixmap (reply_meta r) =
     (case MetadataCache_update (metadata w) offset None None of
        Inl e \<Rightarrow> Inl e
      | Inr m \<Rightarrow>
          Inr (w\<lparr>frames := (frames w)(offset \<mapsto> Some pixmap),
                 cache := ForecastCache_save (cache w) offset pixmap,
                 metadata := m, progress_updated := progress_updated w + 1\<rparr>))"
  using assms
  by (simp add: MainWindow_on_image_loaded_def reply_meta_def Let_def split: sum.splits)

lemma set_field_dict_exact:
  "set_field name v (JObj m) =
     Inr (JObj (if truthy v then AList.update name (JStr (the v)) m else m))"
  by (cases v) (auto simp: set_field_def py_setitem_def truthy_def)

lemma update_absent_key:
  assumes "map_of table k = None"
  shows "AList.update k v table = table @ [(k, v)]"
  using assms by (induction table) (auto split: if_splits)

lemma update_exact:
  assumes "data s = JObj table"
    and "(case map_of table (py_str offset) of None \<Rightarrow> JObj [] | Some e \<Rightarrow> e) = JObj m"
  shows "MetadataCache_update s offset etag last_modified =
     Inr (s\<lparr>data := JObj (AList.update (py_str offset)
               (JObj (if truthy last_modified
                      then AList.update ''last_modified'' (JStr (the last_modified))
                             (if truthy etag then AList.update ''etag'' (JStr (the etag)) m else m)
                      else (if truthy etag then AList.update ''etag'' (JStr (the etag)) m else m)))
               table),
            dirty := True\<rparr>)"
  using assms by (simp add: MetadataCache_update_def set_field_dict_exact)

lemma headers_for_no_record:
  assumes "data s = JObj table"
    and "(case map_of table (py_str offset) of None \<Rightarrow> JObj [] | Some e \<Rightarrow> e) = JObj []"
  shows "MetadataCache_headers_for s offset = Inr []"
  using assms by (simp add: MetadataCache_headers_for_def copy_field_def py_in_def)

text \<open>
  \<^bold>\<open>Claim C4\<close>, as the code has it. Take a store whose table is a dict in which the record of
  the key, if there is one, is a dict. \<^verbatim>\<open>update\<close> returns the store with the dirty flag set
  and with the record of the key replaced by that record (the empty dict if there was none)
  with the non-empty arguments merged in; so the key has a record afterwards. If every record
  had a validator field and \<^verbatim>\<open>etag\<close> or \<^verbatim>\<open>last_modified\<close> is non-empty, every record still
  has one. If both are absent or empty, the table is unchanged when the key had a record, and
  otherwise gains the empty record for the key at its end; \<^verbatim>\<open>headers_for\<close> returns the empty
  mapping for that key before and after, and the same result as before for every key; and a
  store in which every record had a validator field keeps that property exactly when the key
  had a record. \<^verbatim>\<open>save\<close> does not change the table, and the store built from a missing or
  an unparsable file has the empty table.
\<close>

theorem update_merges_into_record:
  assumes "data s = JObj table"
    and "(case map_of table (py_str offset) of None \<Rightarrow> JObj [] | Some e \<Rightarrow> e) = JObj m"
  shows "\<exists>s'. MetadataCache_update s offset etag last_modified = Inr s'
           \<and> s' = s\<lparr>data := JObj (AList.update (py_str offset)
                     (JObj (if truthy last_modified
                            then AList.update ''last_modified'' (JStr (the last_modified))
                                   (if truthy etag
                                    then AList.update ''etag'' (JStr (the etag)) m else m)
                            else (if truthy etag
                                  then AList.update ''etag'' (JStr (the etag)) m else m)))
                     table),
                  dirty := True\<rparr>
           \<and> has_record s' offset
           \<and> (table_ok s \<longrightarrow> table_ok s')
           \<and> (store_inv s \<and> (truthy etag \<or> truthy last_modified) \<longrightarrow> store_inv s')
           \<and> (\<not> truthy etag \<and> \<not> truthy last_modified \<longrightarrow>
                (has_record s offset \<longrightarrow> data s' = data s)
                \<and> (\<not> has_record s offset \<longrightarrow>
                      data s' = JObj (table @ [(py_str offset, JObj [])])
                      \<and> MetadataCache_headers_for s offset = Inr []
                      \<and> MetadataCache_headers_for s' offset = Inr [])
                \<and> (\<forall>k. MetadataCache_headers_for s' k = MetadataCache_headers_for s k)
                \<and> (store_inv s \<longrightarrow> (store_inv s' \<longleftrightarrow> has_record s offset)))
           \<and> data (MetadataCache_save s) = data s
           \<and> store_inv (MetadataCache_save s) = store_inv s
           \<and> data (MetadataCache_init None) = JObj []
           \<and> data (MetadataCache_init (Some Unparsable)) = JObj []
           \<and> store_inv (MetadataCache_init None)
           \<and> store_inv (MetadataCache_init (Some Unparsable))"
proof -
  let ?key = "py_str offset"
  let ?m1 = "if truthy etag then AList.update ''etag'' (JStr (the etag)) m else m"
  let ?m2 = "if truthy last_modified
             then AList.update ''last_modified'' (JStr (the last_modified)) ?m1 else ?m1"
  let ?s' = "s\<lparr>data := JObj (AList.update ?key (JObj ?m2) table), dirty := True\<rparr>"
  have u: "MetadataCache_update s offset etag last_modified = Inr ?s'"
    using update_exact [OF assms] .
  have d': "data ?s' = JObj (AList.update ?key (JObj ?m2) table)"
    by simp
  have rec: "has_record ?s' offset"
    by (simp add: has_record_def update_conv')
  have ok: "table_ok s \<longrightarrow> table_ok ?s'"
  proof
    assume "table_ok s"
    with assms(1) have "list_all (is_dict \<circ> snd) table"
      by (simp add: table_ok_def)
    then have "list_all (is_dict \<circ> snd) (AList.update ?key (JObj ?m2) table)"
      by (rule list_all_update) (simp add: is_dict_def)
    then show "table_ok ?s'"
      by (simp add: table_ok_def)
  qed
  have inv: "store_inv s \<and> (truthy etag \<or> truthy last_modified) \<longrightarrow> store_inv ?s'"
  proof
    assume a: "store_inv s \<and> (truthy etag \<or> truthy last_modified)"
    from update_store_inv [of s etag last_modified offset] a u show "store_inv ?s'"
      by auto
  qed
  have falsy: "(has_record s offset \<longrightarrow> data ?s' = data s)
       \<and> (\<not> has_record s offset \<longrightarrow>
             data ?s' = JObj (table @ [(?key, JObj [])])
             \<and> MetadataCache_headers_for s offset = Inr []
             \<and> MetadataCache_headers_for ?s' offset = Inr [])
       \<and> (\<forall>k. MetadataCache_headers_for ?s' k = MetadataCache_headers_for s k)
       \<and> (store_inv s \<longrightarrow> (store_inv ?s' \<longleftrightarrow> has_record s offset))"
    if f: "\<not> truthy etag \<and> \<not> truthy last_modified"
  proof -
    from f have m2: "?m2 = m" by simp
    have present: "data ?s' = data s" if "has_record s offset"
    proof -
      from that assms have "map_of table ?key = Some (JObj m)"
        by (auto simp: has_record_def split: option.splits)
      then have "AList.update ?key (JObj m) table = table"
        by (rule update_same_entry)
      with m2 assms(1) show ?thesis by simp
    qed
    have absent: "data ?s' = JObj (table @ [(?key, JObj [])])
        \<and> MetadataCache_headers_for s offset = Inr []
        \<and> MetadataCache_headers_for ?s' offset = Inr []"
      if "\<not> has_record s offset"
    proof -
      from that assms(1) have n: "map_of table ?key = None"
        by (simp add: has_record_def)
      with assms(2) have e: "m = []" by simp
      from update_absent_key [OF n, of "JObj []"] m2 e
      have t: "data ?s' = JObj (table @ [(?key, JObj [])])"
        by simp
      have h: "MetadataCache_headers_for s offset = Inr []"
        using assms(1) n by (intro headers_for_no_record [of s table]) simp_all
      have h': "MetadataCache_headers_for ?s' offset = Inr []"
        using m2 e
        by (intro headers_for_no_record [of ?s' "AList.update ?key (JObj ?m2) table"])
          (simp_all add: update_conv')
      from t h h' show ?thesis by blast
    qed
    have same: "MetadataCache_headers_for ?s' k = MetadataCache_headers_for s k" for k
    proof -
      have "(case map_of (AList.update ?key (JObj ?m2) table) (py_str k) of
               None \<Rightarrow> JObj [] | Some e \<Rightarrow> e) =
            (case map_of table (py_str k) of None \<Rightarrow> JObj [] | Some e \<Rightarrow> e)"
        using m2 assms(2) by (simp add: update_conv')
      from headers_for_cong [OF assms(1) d' this] show ?thesis .
    qed
    have iff: "store_inv ?s' \<longleftrightarrow> has_record s offset" if i: "store_inv s"
    proof -
      from update_without_validators [OF i, of etag last_modified offset] f u
      show ?thesis by auto
    qed
    from present absent same iff show ?thesis by blast
  qed
  have sv: "data (MetadataCache_save s) = data s"
    "store_inv (MetadataCache_save s) = store_inv s"
    by (simp_all add: store_inv_def save_data)
  have i0: "data (MetadataCache_init None) = JObj []"
    "data (MetadataCache_init (Some Unparsable)) = JObj []"
    "store_inv (MetadataCache_init None)" "store_inv (MetadataCache_init (Some Unparsable))"
    by (simp_all add: init_simps store_inv_def)
  from u rec ok inv falsy sv i0 show ?thesis
    by blast
qed

theorem update_merges_into_record_witness:
  "data \<lparr>data = JObj [(''6'', JObj [])], dirty = True, disk = None, disk_writes = 0\<rparr>
     = JObj [(''6'', JObj [])]
   \<and> \<not> store_inv \<lparr>data = JObj [(''6'', JObj [])], dirty = True, disk = None, disk_writes = 0\<rparr>
   \<and> MetadataCache_update
        \<lparr>data = JObj [(''6'', JObj [])], dirty = True, disk = None, disk_writes = 0\<rparr> 6 None None
      = Inr \<lparr>data = JObj [(''6'', JObj [])], dirty = True, disk = None, disk_writes = 0\<rparr>
   \<and> MetadataCache_update
        \<lparr>data = JObj [(''6'', JObj [])], dirty = True, disk = None, disk_writes = 0\<rparr> 6
        (Some ''abc'') None
      = Inr \<lparr>data = JObj [(''6'', JObj [(''etag'', JStr ''abc'')])], dirty = True, disk = None,
             disk_writes = 0\<rparr>
   \<and> MetadataCache_update
        \<lparr>data = JObj [(''6'', JObj [])], dirty = True, disk = None, disk_writes = 0\<rparr> 12 None None
      = Inr \<lparr>data = JObj [(''6'', JObj []), (''12'', JObj [])], dirty = True, disk = None,
             disk_writes = 0\<rparr>"
proof -
  let ?s = "\<lparr>data = JObj [(''6'', JObj [])], dirty = True, disk = None, disk_writes = 0\<rparr>"
  have k: "py_str 6 = ''6''" "py_str 12 = ''12''"
    by (simp_all add: py_str_def str_nat.simps digit_char_def)
  have d: "data ?s = JObj [(''6'', JObj [])]" by simp
  have e6: "(case map_of [(''6'', JObj [])] (py_str 6) of None \<Rightarrow> JObj [] | Some e \<Rightarrow> e)
      = JObj []"
    by (simp add: k)
  have e12: "(case map_of [(''6'', JObj [])] (py_str 12) of None \<Rightarrow> JObj [] | Some e \<Rightarrow> e)
      = JObj []"
    by (simp add: k)
  have n: "\<not> store_inv ?s"
    by (simp add: store_inv_def has_validator_def)
  have t: "truthy (Some ''abc'')" "\<not> truthy None"
    by (simp_all add: truthy_def)
  from update_merges_into_record [OF d e6, of None None]
  have a: "MetadataCache_update ?s 6 None None = Inr ?s"
    by (simp add: t k)
  from update_merges_into_record [OF d e6, of "Some ''abc''" None]
  have b: "MetadataCache_update ?s 6 (Some ''abc'') None
      = Inr \<lparr>data = JObj [(''6'', JObj [(''etag'', JStr ''abc'')])], dirty = True, disk = None,
             disk_writes = 0\<rparr>"
    by (simp add: t k)
  from update_merges_into_record [OF d e12, of None None]
  have c: "MetadataCache_update ?s 12 None None
      = Inr \<lparr>data = JObj [(''6'', JObj []), (''12'', JObj [])], dirty = True, disk = None,
             disk_writes = 0\<rparr>"
    by (simp add: t k)
  from d n a b c show ?thesis by blast
qed

text \<open>
  Claim C4 as stated fails: on the empty store, \<^verbatim>\<open>update(6, None, None)\<close> leaves the record
  \<^verbatim>\<open>"6": {}\<close>, which has neither field. \<^verbatim>\<open>MainWindow._on_image_loaded\<close> makes this call for
  a response without ETag and Last-Modified headers (\<open>image_loaded_absent_validators\<close>).
\<close>

theorem update_without_validators_breaks_store_inv:
  "store_inv (MetadataCache_init None)
   \<and> MetadataCache_update (MetadataCache_init None) 6 None None =
       Inr \<lparr>data = JObj [(''6'', JObj [])], dirty = True, disk = None, disk_writes = 0\<rparr>
   \<and> \<not> store_inv \<lparr>data = JObj [(''6'', JObj [])], dirty = True, disk = None, disk_writes = 0\<rparr>"
  by (simp add: init_simps store_inv_def has_validator_def MetadataCache_update_def
      set_field_def py_str_6)

text \<open>
  \<^bold>\<open>Claim C7\<close>, as the code has it. Construction gives the empty table for a missing file and
  for a file that does not parse, and the parsed value otherwise. After a failed load
  \<^verbatim>\<open>headers_for\<close> returns the empty mapping for every key; on every store whose table is a
  dict of dicts \<^verbatim>\<open>headers_for\<close> returns a mapping; and after a failed load, \<^verbatim>\<open>update\<close>
  succeeds, keeps the table a dict of dicts, and the following \<^verbatim>\<open>save\<close> writes a document
  from which a new store loads the same table.
\<close>

theorem store_recovers_from_unparsable_document:
  "data (MetadataCache_init None) = JObj []
   \<and> data (MetadataCache_init (Some Unparsable)) = JObj []
   \<and> data (MetadataCache_init (Some (Parsed j))) = j
   \<and> MetadataCache_headers_for (MetadataCache_init (Some Unparsable)) offset = Inr []
   \<and> (table_ok s \<longrightarrow> (\<exists>h. MetadataCache_headers_for s offset = Inr h))
   \<and> (\<exists>s'. MetadataCache_update (MetadataCache_init (Some Unparsable)) offset etag last_modified
              = Inr s'
         \<and> table_ok s'
         \<and> disk (MetadataCache_save s') = Some (Parsed (data s'))
         \<and> MetadataCache_init (disk (MetadataCache_save s'))
             = \<lparr>data = data s', dirty = False, disk = Some (Parsed (data s')), disk_writes = 0\<rparr>)"
proof -
  let ?s0 = "MetadataCache_init (Some Unparsable)"
  have ok0: "table_ok ?s0"
    by (simp add: init_simps table_ok_def)
  from update_table_ok [OF ok0, of offset etag last_modified] obtain s'
    where s': "MetadataCache_update ?s0 offset etag last_modified = Inr s'" "table_ok s'" "dirty s'"
    by blast
  from save_dirty(1) [OF s'(3)] have w: "disk (MetadataCache_save s') = Some (Parsed (data s'))" .
  have "\<exists>s'. MetadataCache_update ?s0 offset etag last_modified = Inr s'
         \<and> table_ok s'
         \<and> disk (MetadataCache_save s') = Some (Parsed (data s'))
         \<and> MetadataCache_init (disk (MetadataCache_save s'))
             = \<lparr>data = data s', dirty = False, disk = Some (Parsed (data s')), disk_writes = 0\<rparr>"
    using s'(1,2) w by (auto simp: init_simps)
  moreover have "MetadataCache_headers_for ?s0 offset = Inr []"
    by (rule headers_for_empty_table) (simp add: init_simps)
  moreover have "table_ok s \<longrightarrow> (\<exists>h. MetadataCache_headers_for s offset = Inr h)"
    using headers_for_table_ok by blast
  ultimately show ?thesis
    by (simp add: init_simps)
qed

theorem store_recovers_from_unparsable_document_witness:
  "table_ok (MetadataCache_init (Some (Parsed (JObj [(''6'', JObj [(''etag'', JStr ''abc'')])]))))
   \<and> (\<exists>h. MetadataCache_headers_for
             (MetadataCache_init (Some (Parsed (JObj [(''6'', JObj [(''etag'', JStr ''abc'')])])))) 6
           = Inr h)"
proof -
  have ok: "table_ok
      (MetadataCache_init (Some (Parsed (JObj [(''6'', JObj [(''etag'', JStr ''abc'')])]))))"
    by (simp add: init_simps table_ok_def is_dict_def)
  with store_recovers_from_unparsable_document
    [of _ 6 "MetadataCache_init (Some (Parsed (JObj [(''6'', JObj [(''etag'', JStr ''abc'')])])))"]
  show ?thesis by blast
qed

text \<open>
  Claim C7 as stated fails: the document \<^verbatim>\<open>[]\<close> parses, so construction keeps the list as
  \<^verbatim>\<open>self.data\<close>, and \<^verbatim>\<open>headers_for\<close> raises AttributeError on \<^verbatim>\<open>self.data.get\<close>.
\<close>

theorem headers_for_raises_on_list_document:
  "MetadataCache_headers_for (MetadataCache_init (Some (Parsed (JArr [])))) 6 = Inl AttributeError"
  by (simp add: init_simps MetadataCache_headers_for_def)

text \<open>
  \<^bold>\<open>Claim C8.\<close> A second \<^verbatim>\<open>save\<close> right after a \<^verbatim>\<open>save\<close> changes nothing and writes nothing:
  the first call cleared the dirty flag, and wrote once exactly when the flag was set.
\<close>

theorem save_twice_writes_once:
  "MetadataCache_save (MetadataCache_save s) = MetadataCache_save s
   \<and> disk_writes (MetadataCache_save (MetadataCache_save s)) = disk_writes (MetadataCache_save s)
   \<and> \<not> dirty (MetadataCache_save s)
   \<and> disk_writes (MetadataCache_save s) = (if dirty s then disk_writes s + 1 else disk_writes s)"
  by (simp add: MetadataCache_save_def)

theorem save_twice_writes_once_witness:
  "disk_writes (MetadataCache_save (MetadataCache_save
       \<lparr>data = JObj [], dirty = True, disk = None, disk_writes = 0\<rparr>)) = 1
   \<and> disk (MetadataCache_save (MetadataCache_save
       \<lparr>data = JObj [], dirty = True, disk = None, disk_writes = 0\<rparr>)) = Some (Parsed (JObj []))"
  using save_twice_writes_once [of "\<lparr>data = JObj [], dirty = True, disk = None, disk_writes = 0\<rparr>"]
  by (simp add: MetadataCache_save_def)

text \<open>
  \<^bold>\<open>Claim C10.\<close> Every \<^verbatim>\<open>update\<close> that returns has set the dirty flag, so the next \<^verbatim>\<open>save\<close>
  writes the whole table once more; when \<^verbatim>\<open>etag\<close> and \<^verbatim>\<open>last_modified\<close> are both
  \<^verbatim>\<open>None\<close> or empty, \<^verbatim>\<open>headers_for\<close> of every key is as before, so no validator has changed.
  \<^verbatim>\<open>update\<close> returns on every store whose table is a dict of dicts (the shape \<^verbatim>\<open>update\<close> and
  \<^verbatim>\<open>save\<close> keep), and with both arguments absent on every store whose table is a dict.
\<close>

theorem update_always_sets_dirty:
  "(\<forall>s'. MetadataCache_update s offset etag last_modified = Inr s' \<longrightarrow>
          dirty s'
          \<and> disk_writes (MetadataCache_save s') = disk_writes s + 1
          \<and> disk (MetadataCache_save s') = Some (Parsed (data s'))
          \<and> (\<not> truthy etag \<and> \<not> truthy last_modified \<longrightarrow>
               (\<forall>k. MetadataCache_headers_for s' k = MetadataCache_headers_for s k)))
   \<and> (table_ok s \<longrightarrow> (\<exists>s'. MetadataCache_update s offset etag last_modified = Inr s'))
   \<and> (is_dict (data s) \<and> \<not> truthy etag \<and> \<not> truthy last_modified \<longrightarrow>
        (\<exists>s'. MetadataCache_update s offset etag last_modified = Inr s'))"
proof -
  have a: "dirty s'
      \<and> disk_writes (MetadataCache_save s') = disk_writes s + 1
      \<and> disk (MetadataCache_save s') = Some (Parsed (data s'))
      \<and> (\<not> truthy etag \<and> \<not> truthy last_modified \<longrightarrow>
           (\<forall>k. MetadataCache_headers_for s' k = MetadataCache_headers_for s k))"
    if u: "MetadataCache_update s offset etag last_modified = Inr s'" for s'
  proof -
    from update_returns [OF u] obtain table entry where r: "data s = JObj table"
      "s' = s\<lparr>data := JObj (AList.update (py_str offset) entry table), dirty := True\<rparr>"
      "\<not> truthy etag \<and> \<not> truthy last_modified \<longrightarrow>
         entry = (case map_of table (py_str offset) of None \<Rightarrow> JObj [] | Some e \<Rightarrow> e)"
      by blast
    from r(2) have d: "dirty s'" "disk_writes s' = disk_writes s"
      "data s' = JObj (AList.update (py_str offset) entry table)"
      by simp_all
    have "MetadataCache_headers_for s' k = MetadataCache_headers_for s k"
      if f: "\<not> truthy etag \<and> \<not> truthy last_modified" for k
    proof -
      from r(3) f have
        "(case map_of (AList.update (py_str offset) entry table) (py_str k) of
            None \<Rightarrow> JObj [] | Some e \<Rightarrow> e) =
         (case map_of table (py_str k) of None \<Rightarrow> JObj [] | Some e \<Rightarrow> e)"
        by (simp add: update_conv')
      from headers_for_cong [OF r(1) d(3) this] show ?thesis .
    qed
    with d(1,2) save_dirty [OF d(1)] show ?thesis by simp
  qed
  have b: "table_ok s \<longrightarrow> (\<exists>s'. MetadataCache_update s offset etag last_modified = Inr s')"
    using update_table_ok by blast
  have c: "is_dict (data s) \<and> \<not> truthy etag \<and> \<not> truthy last_modified \<longrightarrow>
      (\<exists>s'. MetadataCache_update s offset etag last_modified = Inr s')"
    by (cases "data s") (auto simp: is_dict_def MetadataCache_update_def set_field_falsy)
  from a b c show ?thesis by blast
qed

theorem update_always_sets_dirty_witness:
  "table_ok (MetadataCache_save (MetadataCache_init None))
   \<and> \<not> dirty (MetadataCache_save (MetadataCache_init None))
   \<and> disk_writes (MetadataCache_save (MetadataCache_init None)) = 0
   \<and> (\<exists>s'. MetadataCache_update (MetadataCache_save (MetadataCache_init None)) 6 None None = Inr s'
        \<and> dirty s' \<and> disk_writes (MetadataCache_save s') = 1)"
proof -
  have ok: "table_ok (MetadataCache_save (MetadataCache_init None))"
    by (simp add: init_simps table_ok_def MetadataCache_save_def)
  have z: "\<not> dirty (MetadataCache_save (MetadataCache_init None))"
    "disk_writes (MetadataCache_save (MetadataCache_init None)) = 0"
    by (simp_all add: init_simps MetadataCache_save_def)
  from update_always_sets_dirty [of "MetadataCache_save (MetadataCache_init None)" 6 None None]
    ok z show ?thesis
    by auto
qed

section \<open>Properties of the fetch scheduler\<close>

lemma body_fields:
  "max_concurrent (start_more_body s) = max_concurrent s"
  "n_done (start_more_body s) = n_done s"
  "n_total (start_more_body s) = n_total s"
  "force_network (start_more_body s) = force_network s"
  "headers_by_offset (start_more_body s) = headers_by_offset s"
  "emitted (start_more_body s) = emitted s"
  "in_flight (start_more_body s) = in_flight s + 1"
  "queue (start_more_body s) = tl (queue s)"
  "pending (start_more_body s) = pending s @ [hd (queue s)]"
  "sent (start_more_body s) =
     sent s @ [build_request (force_network s) (headers_by_offset s) (hd (queue s))]"
  by (simp_all add: start_more_body_def Let_def)

lemma start_more_unfold_true:
  assumes "in_flight s < max_concurrent s" and "queue s \<noteq> []"
  shows "ImageFetcher_start_more s = ImageFetcher_start_more (start_more_body s)"
  using assms by (subst ImageFetcher_start_more.simps) simp

lemma start_more_unfold_false:
  assumes "\<not> (in_flight s < max_concurrent s \<and> queue s \<noteq> [])"
  shows "ImageFetcher_start_more s = s"
  using assms by (subst ImageFetcher_start_more.simps) auto

lemma start_more_fields:
  "max_concurrent (ImageFetcher_start_more s) = max_concurrent s
   \<and> n_done (ImageFetcher_start_more s) = n_done s
   \<and> n_total (ImageFetcher_start_more s) = n_total s
   \<and> force_network (ImageFetcher_start_more s) = force_network s
   \<and> headers_by_offset (ImageFetcher_start_more s) = headers_by_offset s
   \<and> emitted (ImageFetcher_start_more s) = emitted s"
proof (induction s rule: ImageFetcher_start_more.induct)
  case (1 s)
  show ?case
  proof (cases "in_flight s < max_concurrent s \<and> queue s \<noteq> []")
    case True
    with "1.IH" show ?thesis
      by (simp add: start_more_unfold_true body_fields)
  next
    case False
    then show ?thesis
      by (simp add: start_more_unfold_false)
  qed
qed

lemma start_more_counts:
  "in_flight (ImageFetcher_start_more s) + int (length (queue (ImageFetcher_start_more s)))
     = in_flight s + int (length (queue s))
   \<and> int (length (pending (ImageFetcher_start_more s))) - in_flight (ImageFetcher_start_more s)
     = int (length (pending s)) - in_flight s
   \<and> in_flight s \<le> in_flight (ImageFetcher_start_more s)"
proof (induction s rule: ImageFetcher_start_more.induct)
  case (1 s)
  show ?case
  proof (cases "in_flight s < max_concurrent s \<and> queue s \<noteq> []")
    case True
    then have "int (length (tl (queue s))) + 1 = int (length (queue s))"
      by (cases "queue s") simp_all
    with True "1.IH" show ?thesis
      by (simp add: start_more_unfold_true body_fields)
  next
    case False
    then show ?thesis
      by (simp add: start_more_unfold_false)
  qed
qed

lemma start_more_cap:
  assumes "in_flight s \<le> max_concurrent s"
  shows "in_flight (ImageFetcher_start_more s) \<le> max_concurrent s
       \<and> (queue (ImageFetcher_start_more s) = []
            \<or> in_flight (ImageFetcher_start_more s) = max_concurrent s)"
  using assms
proof (induction s rule: ImageFetcher_start_more.induct)
  case (1 s)
  show ?case
  proof (cases "in_flight s < max_concurrent s \<and> queue s \<noteq> []")
    case True
    then have "in_flight (start_more_body s) \<le> max_concurrent (start_more_body s)"
      by (simp add: body_fields)
    with True "1.IH" show ?thesis
      by (simp add: start_more_unfold_true body_fields)
  next
    case False
    with "1.prems" show ?thesis
      by (auto simp: start_more_unfold_false)
  qed
qed

lemma start_more_sent:
  "\<exists>k \<le> length (queue s).
     sent (ImageFetcher_start_more s) =
       sent s @ map (build_request (force_network s) (headers_by_offset s)) (take k (queue s))
     \<and> queue (ImageFetcher_start_more s) = drop k (queue s)
     \<and> pending (ImageFetcher_start_more s) = pending s @ take k (queue s)"
proof (induction s rule: ImageFetcher_start_more.induct)
  case (1 s)
  show ?case
  proof (cases "in_flight s < max_concurrent s \<and> queue s \<noteq> []")
    case True
    then obtain q qs where q: "queue s = q # qs"
      by (cases "queue s") auto
    from "1.IH" True obtain k where k: "k \<le> length (queue (start_more_body s))"
      "sent (ImageFetcher_start_more (start_more_body s)) =
         sent (start_more_body s) @
           map (build_request (force_network s) (headers_by_offset s))
             (take k (queue (start_more_body s)))"
      "queue (ImageFetcher_start_more (start_more_body s)) = drop k (queue (start_more_body s))"
      "pending (ImageFetcher_start_more (start_more_body s)) =
         pending (start_more_body s) @ take k (queue (start_more_body s))"
      by (auto simp: body_fields)
    have "Suc k \<le> length (queue s)"
      using k(1) q by (simp add: body_fields)
    moreover have "sent (ImageFetcher_start_more s) =
        sent s @ map (build_request (force_network s) (headers_by_offset s))
          (take (Suc k) (queue s))"
      using True k(2) q by (simp add: start_more_unfold_true body_fields)
    moreover have "queue (ImageFetcher_start_more s) = drop (Suc k) (queue s)"
      using True k(3) q by (simp add: start_more_unfold_true body_fields)
    moreover have "pending (ImageFetcher_start_more s) = pending s @ take (Suc k) (queue s)"
      using True k(4) q by (simp add: start_more_unfold_true body_fields)
    ultimately show ?thesis by blast
  next
    case False
    then have "ImageFetcher_start_more s = s"
      by (rule start_more_unfold_false)
    then have "0 \<le> length (queue s) \<and>
      sent (ImageFetcher_start_more s) =
        sent s @ map (build_request (force_network s) (headers_by_offset s)) (take 0 (queue s))
      \<and> queue (ImageFetcher_start_more s) = drop 0 (queue s)
      \<and> pending (ImageFetcher_start_more s) = pending s @ take 0 (queue s)"
      by simp
    then show ?thesis by blast
  qed
qed

lemma on_finished_fields:
  "n_done (ImageFetcher_on_finished s r) = n_done s + 1"
  "n_total (ImageFetcher_on_finished s r) = n_total s"
  "max_concurrent (ImageFetcher_on_finished s r) = max_concurrent s"
  "force_network (ImageFetcher_on_finished s r) = force_network s"
  "headers_by_offset (ImageFetcher_on_finished s r) = headers_by_offset s"
  by (simp_all add: ImageFetcher_on_finished_def Let_def start_more_fields)

lemma on_finished_emitted:
  "emitted (ImageFetcher_on_finished s r) =
     emitted s @ classify r # ProgressChanged (n_done s + 1) (n_total s)
       # (if n_done s + 1 = n_total s then [BatchFinished] else [])"
  by (simp add: ImageFetcher_on_finished_def Let_def start_more_fields)

lemma inv_init: "fetcher_inv ImageFetcher_init"
  by (simp add: fetcher_inv_def ImageFetcher_init_def DEFAULT_MAX_CONCURRENT_def)

lemma inv_idle_queue:
  assumes "fetcher_inv s" and "idle s"
  shows "queue s = []" and "in_flight s = 0" and "n_done s = n_total s"
  using assms by (auto simp: fetcher_inv_def idle_def)

lemma inv_set_max_concurrent:
  assumes "fetcher_inv s" and "idle s"
  shows "fetcher_inv (ImageFetcher_set_max_concurrent s v)"
  using assms inv_idle_queue [OF assms]
  by (simp add: fetcher_inv_def ImageFetcher_set_max_concurrent_def)

lemma inv_start_more:
  assumes "1 \<le> max_concurrent s" and "in_flight s = int (length (pending s))"
    and "in_flight s \<le> max_concurrent s"
    and "n_done s + in_flight s + int (length (queue s)) = n_total s"
  shows "fetcher_inv (ImageFetcher_start_more s)"
  using assms start_more_fields [of s] start_more_counts [of s] start_more_cap [OF assms(3)]
  by (simp add: fetcher_inv_def)

lemma inv_fetch_offsets:
  assumes "fetcher_inv s" and "idle s"
  shows "fetcher_inv (ImageFetcher_fetch_offsets s offsets by_offset force)"
proof (cases "offsets = []")
  case True
  with assms show ?thesis
    by (simp add: ImageFetcher_fetch_offsets_def fetcher_inv_def idle_def)
next
  case False
  let ?s1 = "s\<lparr>queue := offsets,
       headers_by_offset := (case by_offset of None \<Rightarrow> Map.empty | Some m \<Rightarrow> m),
       force_network := force, in_flight := 0, n_done := 0, n_total := int (length offsets)\<rparr>"
  have "fetcher_inv (ImageFetcher_start_more ?s1)"
    using assms by (intro inv_start_more) (simp_all add: fetcher_inv_def idle_def)
  with False show ?thesis
    by (simp add: ImageFetcher_fetch_offsets_def)
qed

lemma inv_on_finished:
  assumes "fetcher_inv s" and "reply_offset r \<in> set (pending s)"
  shows "fetcher_inv (ImageFetcher_on_finished s r)"
proof -
  from assms(2) have pos': "0 < length (pending s)"
    by (rule length_pos_if_in_set)
  with assms(2) have "length (remove1 (reply_offset r) (pending s)) + 1 = length (pending s)"
    by (simp add: length_remove1)
  then have len: "int (length (remove1 (reply_offset r) (pending s)))
      = int (length (pending s)) - 1"
    by linarith
  from pos' have pos: "1 \<le> int (length (pending s))"
    by linarith
  let ?s2 = "s\<lparr>emitted := emitted s @ [classify r],
       pending := remove1 (reply_offset r) (pending s),
       in_flight := in_flight s - 1, n_done := n_done s + 1,
       emitted := emitted s @ [classify r, ProgressChanged (n_done s + 1) (n_total s)]\<rparr>"
  show ?thesis
  proof (cases "n_done s + 1 = n_total s")
    case True
    from assms(1) have "n_done s + int (length (pending s)) + int (length (queue s)) = n_total s"
      by (simp add: fetcher_inv_def)
    with True pos have "int (length (queue s)) = 0"
      by linarith
    then have "queue s = []" by simp
    with True assms(1) len show ?thesis
      by (simp add: ImageFetcher_on_finished_def fetcher_inv_def)
  next
    case False
    have "fetcher_inv (ImageFetcher_start_more ?s2)"
      using assms(1) len pos by (intro inv_start_more) (simp_all add: fetcher_inv_def)
    with False show ?thesis
      by (simp add: ImageFetcher_on_finished_def)
  qed
qed

lemma inv_exec:
  assumes "fetcher_inv s" and "exec s a = Some s'"
  shows "fetcher_inv s'"
  using assms
  by (cases a)
    (auto simp: inv_set_max_concurrent inv_fetch_offsets inv_on_finished split: if_splits)

lemma inv_execs:
  assumes "fetcher_inv s" and "execs s as = Some s'"
  shows "fetcher_inv s'"
  using assms
proof (induction as arbitrary: s)
  case Nil
  then show ?case by simp
next
  case (Cons a as)
  from Cons.prems(2) obtain s1 where s1: "exec s a = Some s1" "execs s1 as = Some s'"
    by (auto split: option.splits)
  from inv_exec [OF Cons.prems(1) s1(1)] have "fetcher_inv s1" .
  from Cons.IH [OF this s1(2)] show ?case .
qed

lemma inv_done_le:
  assumes "fetcher_inv s"
  shows "n_done s \<le> n_total s"
    and "n_done s < n_total s \<longrightarrow> pending s \<noteq> []"
    and "n_done s = n_total s \<longrightarrow> pending s = [] \<and> queue s = []"
  using assms by (auto simp: fetcher_inv_def)

lemma run_counts:
  assumes "fetcher_inv s" and "execs s (map Finished rs) = Some s'"
  shows "n_done s' = n_done s + int (length rs) \<and> n_total s' = n_total s
       \<and> (\<exists>evs. emitted s' = emitted s @ evs
             \<and> count_list evs BatchFinished = (if rs \<noteq> [] \<and> n_done s' = n_total s' then 1 else 0)
             \<and> (rs \<noteq> [] \<longrightarrow> evs \<noteq> [] \<and> (last evs = BatchFinished \<longleftrightarrow> n_done s' = n_total s')))"
  using assms
proof (induction rs arbitrary: s)
  case Nil
  then show ?case by simp
next
  case (Cons r rs)
  let ?s1 = "ImageFetcher_on_finished s r"
  from Cons.prems(2) have en: "reply_offset r \<in> set (pending s)"
    and rest: "execs ?s1 (map Finished rs) = Some s'"
    by (auto split: if_splits)
  have inv1: "fetcher_inv ?s1"
    using Cons.prems(1) en by (rule inv_on_finished)
  from Cons.IH [OF inv1 rest] obtain evs where ih:
    "n_done s' = n_done ?s1 + int (length rs)" "n_total s' = n_total ?s1"
    "emitted s' = emitted ?s1 @ evs"
    "count_list evs BatchFinished = (if rs \<noteq> [] \<and> n_done s' = n_total s' then 1 else 0)"
    "rs \<noteq> [] \<longrightarrow> evs \<noteq> [] \<and> (last evs = BatchFinished \<longleftrightarrow> n_done s' = n_total s')"
    by blast
  let ?step = "classify r # ProgressChanged (n_done s + 1) (n_total s)
       # (if n_done s + 1 = n_total s then [BatchFinished] else [])"
  have cl: "classify r \<noteq> BatchFinished"
    by (simp add: classify_def split: option.splits payload.splits)
  have em: "emitted s' = emitted s @ (?step @ evs)"
    using ih(3) by (simp add: on_finished_emitted)
  have dn: "n_done s' = n_done s + int (length (r # rs))" "n_total s' = n_total s"
    using ih(1,2) by (simp_all add: on_finished_fields)
  show ?case
  proof (cases "rs = []")
    case True
    with rest have "s' = ?s1" by simp
    with ih(3) have "evs = []" by simp
    with True dn cl have
      "count_list (?step @ evs) BatchFinished =
         (if r # rs \<noteq> [] \<and> n_done s' = n_total s' then 1 else 0)"
      "?step @ evs \<noteq> []"
      "last (?step @ evs) = BatchFinished \<longleftrightarrow> n_done s' = n_total s'"
      by auto
    with em dn show ?thesis by blast
  next
    case False
    then obtain r' rs' where rs: "rs = r' # rs'" by (cases rs) auto
    with rest have "reply_offset r' \<in> set (pending ?s1)"
      by (auto split: if_splits)
    with inv_done_le(3) [OF inv1] have "n_done ?s1 \<noteq> n_total ?s1"
      by auto
    then have ne: "n_done s + 1 \<noteq> n_total s"
      by (simp add: on_finished_fields)
    with False ih(4,5) dn cl have
      "count_list (?step @ evs) BatchFinished =
         (if r # rs \<noteq> [] \<and> n_done s' = n_total s' then 1 else 0)"
      "?step @ evs \<noteq> []"
      "last (?step @ evs) = BatchFinished \<longleftrightarrow> n_done s' = n_total s'"
      by auto
    with em dn show ?thesis by blast
  qed
qed

lemma fetch_offsets_fields:
  "n_total (ImageFetcher_fetch_offsets s offsets by_offset force) = int (length offsets)"
  "n_done (ImageFetcher_fetch_offsets s offsets by_offset force) = 0"
  "emitted (ImageFetcher_fetch_offsets s offsets by_offset force) =
     emitted s @ (if offsets = [] then [BatchFinished] else [])"
  "force_network (ImageFetcher_fetch_offsets s offsets by_offset force) = force"
  "headers_by_offset (ImageFetcher_fetch_offsets s offsets by_offset force) =
     (case by_offset of None \<Rightarrow> Map.empty | Some m \<Rightarrow> m)"
  by (simp_all add: ImageFetcher_fetch_offsets_def Let_def start_more_fields)

text \<open>
  \<^bold>\<open>Claim C1.\<close> Take a scheduler after any history of its calls, a batch of a non-empty key
  sequence started on it, and any sequence of finished replies of that batch. Then \<^verbatim>\<open>_total\<close>
  is the number of keys, \<^verbatim>\<open>_done\<close> is the number of replies handled (each one adds
  exactly 1) and is at most \<^verbatim>\<open>_total\<close>; the signals emitted since the start of the batch
  contain \<^verbatim>\<open>batchFinished\<close> once when \<^verbatim>\<open>_done\<close> equals \<^verbatim>\<open>_total\<close> and not at all before, and
  it is the last signal of exactly the reply that makes them equal. While \<^verbatim>\<open>_done\<close> is
  smaller a reply is still outstanding, so the batch goes on; once they are equal nothing
  is outstanding or queued.
\<close>

theorem batch_finished_fires_once_when_done:
  assumes "execs ImageFetcher_init history = Some s0"
    and "offsets \<noteq> []"
    and "execs s0 (FetchOffsets offsets by_offset force # map Finished replies) = Some s"
  shows "n_total s = int (length offsets)
       \<and> n_done s = int (length replies)
       \<and> length replies \<le> length offsets
       \<and> (\<forall>r. n_done (ImageFetcher_on_finished s r) = n_done s + 1)
       \<and> (\<exists>evs. emitted s = emitted s0 @ evs
             \<and> count_list evs BatchFinished = (if n_done s = n_total s then 1 else 0)
             \<and> (replies \<noteq> [] \<longrightarrow> (last evs = BatchFinished \<longleftrightarrow> n_done s = n_total s)))
       \<and> (n_done s < n_total s \<longrightarrow> pending s \<noteq> [])
       \<and> (n_done s = n_total s \<longrightarrow> pending s = [] \<and> queue s = [])"
proof -
  let ?s1 = "ImageFetcher_fetch_offsets s0 offsets by_offset force"
  have inv0: "fetcher_inv s0"
    using inv_init assms(1) by (rule inv_execs)
  from assms(3) have idle0: "idle s0" and run: "execs ?s1 (map Finished replies) = Some s"
    by (auto split: if_splits)
  have inv1: "fetcher_inv ?s1"
    using inv0 idle0 by (rule inv_fetch_offsets)
  have inv: "fetcher_inv s"
    using inv1 run by (rule inv_execs)
  from run_counts [OF inv1 run] obtain evs where rc:
    "n_done s = n_done ?s1 + int (length replies)" "n_total s = n_total ?s1"
    "emitted s = emitted ?s1 @ evs"
    "count_list evs BatchFinished = (if replies \<noteq> [] \<and> n_done s = n_total s then 1 else 0)"
    "replies \<noteq> [] \<longrightarrow> evs \<noteq> [] \<and> (last evs = BatchFinished \<longleftrightarrow> n_done s = n_total s)"
    by blast
  have tot: "n_total s = int (length offsets)" and dn: "n_done s = int (length replies)"
    using rc(1,2) by (simp_all add: fetch_offsets_fields)
  have le: "length replies \<le> length offsets"
    using inv_done_le(1) [OF inv] tot dn by simp
  have "replies = [] \<longrightarrow> n_done s \<noteq> n_total s"
    using tot dn assms(2) by auto
  with rc(4) have cnt: "count_list evs BatchFinished = (if n_done s = n_total s then 1 else 0)"
    by auto
  have em: "emitted s = emitted s0 @ evs"
    using rc(3) assms(2) by (simp add: fetch_offsets_fields)
  from em cnt rc(5) have ev: "\<exists>evs. emitted s = emitted s0 @ evs
      \<and> count_list evs BatchFinished = (if n_done s = n_total s then 1 else 0)
      \<and> (replies \<noteq> [] \<longrightarrow> (last evs = BatchFinished \<longleftrightarrow> n_done s = n_total s))"
    by blast
  from tot dn le ev inv_done_le(2,3) [OF inv] show ?thesis
    by (simp add: on_finished_fields)
qed

lemma fetch_two:
  "ImageFetcher_fetch_offsets ImageFetcher_init [6, 12] None False =
     \<lparr>queue = [], headers_by_offset = Map.empty, in_flight = 2, n_done = 0, n_total = 2,
      max_concurrent = 4, force_network = False,
      sent = [build_request False Map.empty 6, build_request False Map.empty 12],
      pending = [6, 12], emitted = []\<rparr>"
  by (simp add: ImageFetcher_fetch_offsets_def ImageFetcher_init_def DEFAULT_MAX_CONCURRENT_def
      ImageFetcher_start_more.simps start_more_body_def)

lemma idle_init: "idle ImageFetcher_init"
  by (simp add: idle_def ImageFetcher_init_def)

theorem batch_finished_fires_once_when_done_witness:
  "execs ImageFetcher_init [] = Some ImageFetcher_init
   \<and> execs ImageFetcher_init
        [FetchOffsets [6, 12] None False, Finished (reply_304 12), Finished (reply_304 6)]
      = Some \<lparr>queue = [], headers_by_offset = Map.empty, in_flight = 0, n_done = 2, n_total = 2,
          max_concurrent = 4, force_network = False,
          sent = [build_request False Map.empty 6, build_request False Map.empty 12],
          pending = [],
          emitted = [NotModified 12, ProgressChanged 1 2, NotModified 6, ProgressChanged 2 2,
            BatchFinished]\<rparr>
   \<and> (\<exists>evs. [NotModified 12, ProgressChanged 1 2, NotModified 6, ProgressChanged 2 2,
               BatchFinished] = emitted ImageFetcher_init @ evs
         \<and> count_list evs BatchFinished = 1)"
proof -
  let ?s1 = "\<lparr>queue = [], headers_by_offset = Map.empty, in_flight = 2, n_done = 0, n_total = 2,
      max_concurrent = 4, force_network = False,
      sent = [build_request False Map.empty 6, build_request False Map.empty 12],
      pending = [6, 12], emitted = []\<rparr>"
  let ?s2 = "\<lparr>queue = [], headers_by_offset = Map.empty, in_flight = 1, n_done = 1, n_total = 2,
      max_concurrent = 4, force_network = False,
      sent = [build_request False Map.empty 6, build_request False Map.empty 12],
      pending = [6], emitted = [NotModified 12, ProgressChanged 1 2]\<rparr>"
  let ?s3 = "\<lparr>queue = [], headers_by_offset = Map.empty, in_flight = 0, n_done = 2, n_total = 2,
      max_concurrent = 4, force_network = False,
      sent = [build_request False Map.empty 6, build_request False Map.empty 12],
      pending = [],
      emitted = [NotModified 12, ProgressChanged 1 2, NotModified 6, ProgressChanged 2 2,
        BatchFinished]\<rparr>"
  have s2: "ImageFetcher_on_finished ?s1 (reply_304 12) = ?s2"
    by (simp add: ImageFetcher_on_finished_def Let_def classify_def reply_304_def
        ImageFetcher_start_more.simps)
  have s3: "ImageFetcher_on_finished ?s2 (reply_304 6) = ?s3"
    by (simp add: ImageFetcher_on_finished_def Let_def classify_def reply_304_def)
  have off: "reply_offset (reply_304 12) = 12" "reply_offset (reply_304 6) = 6"
    by (simp_all add: reply_304_def)
  have a: "execs ImageFetcher_init [] = Some ImageFetcher_init" by simp
  have b: "execs ImageFetcher_init
        (FetchOffsets [6, 12] None False # map Finished [reply_304 12, reply_304 6]) = Some ?s3"
    by (simp add: idle_init fetch_two s2 s3 off)
  have c: "[6, 12] \<noteq> ([] :: int list)" by simp
  from batch_finished_fires_once_when_done [OF a c b] a b show ?thesis
    by (simp add: ImageFetcher_init_def)
qed

text \<open>
  \<^bold>\<open>Claim C2.\<close> In every state the scheduler reaches, \<^verbatim>\<open>_in_flight\<close> is at most
  \<^verbatim>\<open>_max_concurrent\<close>, which is at least 1, and \<^verbatim>\<open>_in_flight\<close> counts the outstanding
  replies. \<^verbatim>\<open>set_max_concurrent\<close> sets the cap to the maximum of 1 and its argument. Inside
  \<^verbatim>\<open>_start_more\<close>, an iteration runs only below the cap and so ends at most at the cap.
\<close>

theorem in_flight_within_cap:
  assumes "execs ImageFetcher_init actions = Some s"
  shows "in_flight s \<le> max_concurrent s
       \<and> 1 \<le> max_concurrent s
       \<and> in_flight s = int (length (pending s))
       \<and> (\<forall>t v. max_concurrent (ImageFetcher_set_max_concurrent t v) = max 1 v
                \<and> 1 \<le> max_concurrent (ImageFetcher_set_max_concurrent t v))
       \<and> (\<forall>t. in_flight t < max_concurrent t \<and> queue t \<noteq> [] \<longrightarrow>
                in_flight (start_more_body t) \<le> max_concurrent (start_more_body t))"
proof -
  have "fetcher_inv s"
    using inv_init assms by (rule inv_execs)
  then show ?thesis
    by (simp add: fetcher_inv_def ImageFetcher_set_max_concurrent_def body_fields)
qed

theorem in_flight_within_cap_witness:
  "execs ImageFetcher_init
      [SetMaxConcurrent 0, FetchOffsets [6, 12, 18] None False, Finished (reply_304 6)]
     = Some \<lparr>queue = [18], headers_by_offset = Map.empty, in_flight = 1, n_done = 1, n_total = 3,
          max_concurrent = 1, force_network = False,
          sent = [build_request False Map.empty 6, build_request False Map.empty 12],
          pending = [12],
          emitted = [NotModified 6, ProgressChanged 1 3]\<rparr>
   \<and> in_flight \<lparr>queue = [18], headers_by_offset = Map.empty, in_flight = 1, n_done = 1,
          n_total = 3, max_concurrent = 1, force_network = False,
          sent = [build_request False Map.empty 6, build_request False Map.empty 12],
          pending = [12],
          emitted = [NotModified 6, ProgressChanged 1 3]\<rparr> \<le> 1"
proof -
  let ?s0 = "ImageFetcher_init\<lparr>max_concurrent := 1\<rparr>"
  let ?s1 = "\<lparr>queue = [12, 18], headers_by_offset = Map.empty, in_flight = 1, n_done = 0,
      n_total = 3, max_concurrent = 1, force_network = False,
      sent = [build_request False Map.empty 6], pending = [6], emitted = []\<rparr>"
  let ?s2 = "\<lparr>queue = [18], headers_by_offset = Map.empty, in_flight = 1, n_done = 1,
      n_total = 3, max_concurrent = 1, force_network = False,
      sent = [build_request False Map.empty 6, build_request False Map.empty 12],
      pending = [12], emitted = [NotModified 6, ProgressChanged 1 3]\<rparr>"
  have s0: "ImageFetcher_set_max_concurrent ImageFetcher_init 0 = ?s0"
    by (simp add: ImageFetcher_set_max_concurrent_def)
  have i0: "idle ?s0"
    by (simp add: idle_def ImageFetcher_init_def)
  have s1: "ImageFetcher_fetch_offsets ?s0 [6, 12, 18] None False = ?s1"
    by (simp add: ImageFetcher_fetch_offsets_def ImageFetcher_init_def
        ImageFetcher_start_more.simps start_more_body_def)
  have s2: "ImageFetcher_on_finished ?s1 (reply_304 6) = ?s2"
    by (simp add: ImageFetcher_on_finished_def Let_def classify_def reply_304_def
        ImageFetcher_start_more.simps start_more_body_def)
  have off: "reply_offset (reply_304 6) = 6"
    by (simp add: reply_304_def)
  have r: "execs ImageFetcher_init
      [SetMaxConcurrent 0, FetchOffsets [6, 12, 18] None False, Finished (reply_304 6)] = Some ?s2"
    by (simp add: idle_init s0 i0 s1 s2 off)
  from in_flight_within_cap [OF r] r show ?thesis
    by simp
qed

text \<open>
  \<^bold>\<open>Claim C9.\<close> \<^verbatim>\<open>fetch_offsets\<close> with an empty key sequence emits \<^verbatim>\<open>batchFinished\<close> and
  nothing else, sends no request and leaves nothing queued or in flight.
\<close>

theorem empty_batch_finishes_at_once:
  "emitted (ImageFetcher_fetch_offsets s [] by_offset force) = emitted s @ [BatchFinished]
   \<and> sent (ImageFetcher_fetch_offsets s [] by_offset force) = sent s
   \<and> pending (ImageFetcher_fetch_offsets s [] by_offset force) = pending s
   \<and> queue (ImageFetcher_fetch_offsets s [] by_offset force) = []
   \<and> in_flight (ImageFetcher_fetch_offsets s [] by_offset force) = 0
   \<and> n_done (ImageFetcher_fetch_offsets s [] by_offset force) = 0
   \<and> n_total (ImageFetcher_fetch_offsets s [] by_offset force) = 0"
  by (simp add: ImageFetcher_fetch_offsets_def)

theorem empty_batch_finishes_at_once_witness:
  "emitted (ImageFetcher_fetch_offsets ImageFetcher_init [] (Some Map.empty) False) = [BatchFinished]
   \<and> sent (ImageFetcher_fetch_offsets ImageFetcher_init [] (Some Map.empty) False) = []"
  using empty_batch_finishes_at_once [of ImageFetcher_init "Some Map.empty" False]
  by (simp add: ImageFetcher_init_def)

lemma on_finished_sent:
  "\<exists>k \<le> length (queue s).
     sent (ImageFetcher_on_finished s r) =
       sent s @ map (build_request (force_network s) (headers_by_offset s)) (take k (queue s))
     \<and> queue (ImageFetcher_on_finished s r) = drop k (queue s)"
proof (cases "n_done s + 1 = n_total s")
  case True
  then have "sent (ImageFetcher_on_finished s r) =
       sent s @ map (build_request (force_network s) (headers_by_offset s)) (take 0 (queue s))
     \<and> queue (ImageFetcher_on_finished s r) = drop 0 (queue s)"
    by (simp add: ImageFetcher_on_finished_def)
  then show ?thesis by blast
next
  case False
  let ?s2 = "s\<lparr>emitted := emitted s @ [classify r],
       pending := remove1 (reply_offset r) (pending s),
       in_flight := in_flight s - 1, n_done := n_done s + 1,
       emitted := emitted s @ [classify r, ProgressChanged (n_done s + 1) (n_total s)]\<rparr>"
  from False have "ImageFetcher_on_finished s r = ImageFetcher_start_more ?s2"
    by (simp add: ImageFetcher_on_finished_def)
  with start_more_sent [of ?s2] show ?thesis
    by auto
qed

lemma run_sent:
  assumes "execs s (map Finished rs) = Some s'"
  shows "force_network s' = force_network s \<and> headers_by_offset s' = headers_by_offset s
       \<and> (\<exists>k \<le> length (queue s).
            sent s' =
              sent s @ map (build_request (force_network s) (headers_by_offset s)) (take k (queue s))
            \<and> queue s' = drop k (queue s))"
  using assms
proof (induction rs arbitrary: s)
  case Nil
  then have "s' = s" by simp
  then have "sent s' =
       sent s @ map (build_request (force_network s) (headers_by_offset s)) (take 0 (queue s))
     \<and> queue s' = drop 0 (queue s)"
    by simp
  with \<open>s' = s\<close> show ?case by blast
next
  case (Cons r rs)
  let ?s1 = "ImageFetcher_on_finished s r"
  let ?b = "build_request (force_network s) (headers_by_offset s)"
  from Cons.prems have rest: "execs ?s1 (map Finished rs) = Some s'"
    by (auto split: if_splits)
  from on_finished_sent [of s r] obtain k where k: "k \<le> length (queue s)"
    "sent ?s1 = sent s @ map ?b (take k (queue s))" "queue ?s1 = drop k (queue s)"
    by blast
  from Cons.IH [OF rest] obtain j where j: "j \<le> length (queue ?s1)"
    "sent s' = sent ?s1 @ map ?b (take j (queue ?s1))" "queue s' = drop j (queue ?s1)"
    "force_network s' = force_network s" "headers_by_offset s' = headers_by_offset s"
    by (auto simp: on_finished_fields)
  have "k + j \<le> length (queue s)"
    using k(1,3) j(1) by simp
  moreover have "sent s' = sent s @ map ?b (take (k + j) (queue s))"
    using k(2,3) j(2) by (simp add: take_add)
  moreover have "queue s' = drop (k + j) (queue s)"
    using k(3) j(3) by (simp add: add.commute)
  ultimately show ?case
    using j(4,5) by blast
qed

lemma fetch_offsets_sent:
  "\<exists>k \<le> length offsets.
     sent (ImageFetcher_fetch_offsets s offsets by_offset force) =
       sent s @ map (build_request force (case by_offset of None \<Rightarrow> Map.empty | Some m \<Rightarrow> m))
                  (take k offsets)
     \<and> queue (ImageFetcher_fetch_offsets s offsets by_offset force) = drop k offsets"
proof (cases "offsets = []")
  case True
  then show ?thesis
    by (simp add: ImageFetcher_fetch_offsets_def)
next
  case False
  let ?s1 = "s\<lparr>queue := offsets,
       headers_by_offset := (case by_offset of None \<Rightarrow> Map.empty | Some m \<Rightarrow> m),
       force_network := force, in_flight := 0, n_done := 0, n_total := int (length offsets)\<rparr>"
  from False have "ImageFetcher_fetch_offsets s offsets by_offset force = ImageFetcher_start_more ?s1"
    by (simp add: ImageFetcher_fetch_offsets_def)
  with start_more_sent [of ?s1] show ?thesis
    by auto
qed

lemma conditional_headers_empty_iff:
  "conditional_headers h = [] \<longleftrightarrow>
     \<not> truthy (map_of h ''etag'') \<and> \<not> truthy (map_of h ''last_modified'')"
  by (auto simp: conditional_headers_def truthy_def split: option.splits)

lemma conditional_headers_if_none_match:
  "(''If-None-Match'', v) \<in> set (conditional_headers h) \<longleftrightarrow>
     map_of h ''etag'' = Some v \<and> v \<noteq> []"
  by (auto simp: conditional_headers_def split: option.splits)

lemma conditional_headers_if_modified_since:
  "(''If-Modified-Since'', v) \<in> set (conditional_headers h) \<longleftrightarrow>
     map_of h ''last_modified'' = Some v \<and> v \<noteq> []"
  by (auto simp: conditional_headers_def split: option.splits)

lemma build_request_headers_any_flag:
  "raw_headers (build_request force by_offset offset) =
     raw_headers (build_request force' by_offset offset)"
  by (simp add: build_request_def)

text \<open>
  \<^bold>\<open>Claim C3\<close>, as the code has it. In a batch started with any value of the flag, the
  requests sent since the start are, in order, those of the keys no longer queued. Each has
  the cache-load control \<^verbatim>\<open>AlwaysNetwork\<close> when \<^verbatim>\<open>force_network\<close> is true and
  \<^verbatim>\<open>PreferNetwork\<close> otherwise, and its conditional headers are those of the key's entry in
  the validator mapping, the same for both values of the flag: \<^verbatim>\<open>If-None-Match\<close> exactly
  for a non-empty \<^verbatim>\<open>etag\<close>, \<^verbatim>\<open>If-Modified-Since\<close> exactly for a non-empty
  \<^verbatim>\<open>last_modified\<close>, and none exactly when the entry has neither, as when the mapping is
  omitted.
\<close>

theorem batch_requests_follow_mapping:
  assumes "execs s0 (FetchOffsets offsets by_offset force # map Finished replies) = Some s"
  shows "sent s = sent s0 @
           map (\<lambda>offset.
                  \<lparr>url = format_url offset,
                   cache_load = (if force then AlwaysNetwork else PreferNetwork),
                   raw_headers = conditional_headers
                     (case by_offset of
                        None \<Rightarrow> []
                      | Some m \<Rightarrow> (case m offset of None \<Rightarrow> [] | Some h \<Rightarrow> h))\<rparr>)
             (take (length offsets - length (queue s)) offsets)
       \<and> queue s = drop (length offsets - length (queue s)) offsets
       \<and> (\<forall>f f' m offset.
            raw_headers (build_request f m offset) = raw_headers (build_request f' m offset))
       \<and> (\<forall>m offset. cache_load (build_request True m offset) = AlwaysNetwork)
       \<and> (\<forall>h v. (''If-None-Match'', v) \<in> set (conditional_headers h) \<longleftrightarrow>
                  map_of h ''etag'' = Some v \<and> v \<noteq> [])
       \<and> (\<forall>h v. (''If-Modified-Since'', v) \<in> set (conditional_headers h) \<longleftrightarrow>
                  map_of h ''last_modified'' = Some v \<and> v \<noteq> [])
       \<and> (\<forall>h. conditional_headers h = [] \<longleftrightarrow>
                \<not> truthy (map_of h ''etag'') \<and> \<not> truthy (map_of h ''last_modified''))
       \<and> conditional_headers [] = []"
proof -
  let ?m = "case by_offset of None \<Rightarrow> Map.empty | Some m \<Rightarrow> m"
  let ?s1 = "ImageFetcher_fetch_offsets s0 offsets by_offset force"
  let ?req = "\<lambda>offset.
      \<lparr>url = format_url offset,
       cache_load = (if force then AlwaysNetwork else PreferNetwork),
       raw_headers = conditional_headers
         (case by_offset of
            None \<Rightarrow> []
          | Some m \<Rightarrow> (case m offset of None \<Rightarrow> [] | Some h \<Rightarrow> h))\<rparr>"
  from assms have run: "execs ?s1 (map Finished replies) = Some s"
    by (auto split: if_splits)
  from fetch_offsets_sent [of offsets s0 by_offset force] obtain k where k: "k \<le> length offsets"
    "sent ?s1 = sent s0 @ map (build_request force ?m) (take k offsets)"
    "queue ?s1 = drop k offsets"
    by blast
  from run_sent [OF run] obtain j where j: "j \<le> length (queue ?s1)"
    "sent s = sent ?s1 @ map (build_request force ?m) (take j (queue ?s1))"
    "queue s = drop j (queue ?s1)"
    by (auto simp: fetch_offsets_fields)
  have b: "build_request force ?m = ?req"
    by (rule ext) (simp add: build_request_def split: option.splits)
  have le: "k + j \<le> length offsets"
    using k(1,3) j(1) by simp
  have q: "queue s = drop (k + j) offsets"
    using k(3) j(3) by (simp add: add.commute)
  with le have n: "length offsets - length (queue s) = k + j"
    by simp
  have "sent s = sent s0 @ map (build_request force ?m) (take (k + j) offsets)"
    using k(2,3) j(2) by (simp add: take_add)
  then have sent: "sent s = sent s0 @ map ?req (take (length offsets - length (queue s)) offsets)"
    unfolding b n .
  have qs: "queue s = drop (length offsets - length (queue s)) offsets"
    using q n by simp
  have flag: "\<forall>f f' m offset.
      raw_headers (build_request f m offset) = raw_headers (build_request f' m offset)"
    using build_request_headers_any_flag by blast
  have always: "\<forall>m offset. cache_load (build_request True m offset) = AlwaysNetwork"
    by (simp add: build_request_def)
  have e: "conditional_headers [] = []"
    by (simp add: conditional_headers_def)
  from sent qs flag always e conditional_headers_if_none_match
    conditional_headers_if_modified_since conditional_headers_empty_iff
  show ?thesis by blast
qed

lemma fetch_6_with_etag:
  "ImageFetcher_fetch_offsets ImageFetcher_init [6] (Some [6 \<mapsto> [(''etag'', ''abc'')]]) force =
     \<lparr>queue = [], headers_by_offset = [6 \<mapsto> [(''etag'', ''abc'')]], in_flight = 1, n_done = 0,
      n_total = 1, max_concurrent = 4, force_network = force,
      sent = [build_request force [6 \<mapsto> [(''etag'', ''abc'')]] 6],
      pending = [6], emitted = []\<rparr>"
  by (simp add: ImageFetcher_fetch_offsets_def ImageFetcher_init_def DEFAULT_MAX_CONCURRENT_def
      ImageFetcher_start_more.simps start_more_body_def)

theorem batch_requests_follow_mapping_witness:
  "execs ImageFetcher_init [FetchOffsets [6] (Some [6 \<mapsto> [(''etag'', ''abc'')]]) True]
     = Some (ImageFetcher_fetch_offsets ImageFetcher_init [6]
               (Some [6 \<mapsto> [(''etag'', ''abc'')]]) True)
   \<and> sent (ImageFetcher_fetch_offsets ImageFetcher_init [6]
             (Some [6 \<mapsto> [(''etag'', ''abc'')]]) True)
       = [\<lparr>url = format_url 6, cache_load = AlwaysNetwork,
           raw_headers = [(''If-None-Match'', ''abc'')]\<rparr>]
   \<and> execs ImageFetcher_init [FetchOffsets [6] (Some [6 \<mapsto> [(''etag'', ''abc'')]]) False]
     = Some (ImageFetcher_fetch_offsets ImageFetcher_init [6]
               (Some [6 \<mapsto> [(''etag'', ''abc'')]]) False)
   \<and> sent (ImageFetcher_fetch_offsets ImageFetcher_init [6]
             (Some [6 \<mapsto> [(''etag'', ''abc'')]]) False)
       = [\<lparr>url = format_url 6, cache_load = PreferNetwork,
           raw_headers = [(''If-None-Match'', ''abc'')]\<rparr>]"
proof -
  let ?by = "Some [6 \<mapsto> [(''etag'', ''abc'')]]"
  have r: "execs ImageFetcher_init (FetchOffsets [6] ?by force # map Finished [])
      = Some (ImageFetcher_fetch_offsets ImageFetcher_init [6] ?by force)" for force
    by (simp add: idle_init)
  have q: "queue (ImageFetcher_fetch_offsets ImageFetcher_init [6] ?by force) = []"
    "sent ImageFetcher_init = []" for force
    by (simp_all add: fetch_6_with_etag) (simp add: ImageFetcher_init_def)
  have c: "conditional_headers [(''etag'', ''abc'')] = [(''If-None-Match'', ''abc'')]"
    by (simp add: conditional_headers_def)
  from batch_requests_follow_mapping [OF r [of True]]
  have t: "sent (ImageFetcher_fetch_offsets ImageFetcher_init [6] ?by True)
      = [\<lparr>url = format_url 6, cache_load = AlwaysNetwork,
          raw_headers = [(''If-None-Match'', ''abc'')]\<rparr>]"
    by (simp add: q c)
  from batch_requests_follow_mapping [OF r [of False]]
  have f: "sent (ImageFetcher_fetch_offsets ImageFetcher_init [6] ?by False)
      = [\<lparr>url = format_url 6, cache_load = PreferNetwork,
          raw_headers = [(''If-None-Match'', ''abc'')]\<rparr>]"
    by (simp add: q c)
  from t f r [of True] r [of False] show ?thesis by simp
qed

text \<open>
  Claim C3 as stated fails: with \<^verbatim>\<open>force_network=True\<close> and an etag for key 6 in the
  mapping, the request for key 6 carries \<^verbatim>\<open>If-None-Match\<close>.
\<close>

theorem forced_batch_still_sends_if_none_match:
  "sent (ImageFetcher_fetch_offsets ImageFetcher_init [6] (Some [6 \<mapsto> [(''etag'', ''abc'')]]) True)
     = [\<lparr>url = format_url 6, cache_load = AlwaysNetwork,
         raw_headers = [(''If-None-Match'', ''abc'')]\<rparr>]"
  by (simp add: ImageFetcher_fetch_offsets_def ImageFetcher_init_def DEFAULT_MAX_CONCURRENT_def
      ImageFetcher_start_more.simps start_more_body_def build_request_def conditional_headers_def)

text \<open>
  \<^bold>\<open>Claim C6.\<close> When a reply with status 304 finishes, the slots run without an exception;
  the frame table, the cache directory and the validator table are unchanged (the validator
  file is untouched, or rewritten from the unchanged table when the batch ends here); the
  scheduler emits \<^verbatim>\<open>notModified\<close> for the key, then \<^verbatim>\<open>progressChanged\<close>, then
  \<^verbatim>\<open>batchFinished\<close> if this was the last key, and nothing else.
\<close>

theorem not_modified_writes_nothing:
  assumes "status r = Some 304"
  shows "\<exists>w'. finished_signal w r = Inr w'
           \<and> frames w' = frames w
           \<and> cache w' = cache w
           \<and> data (metadata w') = data (metadata w)
           \<and> (disk (metadata w') = disk (metadata w)
                \<or> disk (metadata w') = Some (Parsed (data (metadata w))))
           \<and> progress_updated w' = progress_updated w
           \<and> progress_unchanged w' = progress_unchanged w + 1
           \<and> emitted (fetcher w') =
               emitted (fetcher w) @ NotModified (reply_offset r)
                 # ProgressChanged (n_done (fetcher w) + 1) (n_total (fetcher w))
                 # (if n_done (fetcher w) + 1 = n_total (fetcher w) then [BatchFinished] else [])"
proof -
  from assms have c: "classify r = NotModified (reply_offset r)"
    by (simp add: classify_def)
  show ?thesis
    by (simp add: finished_signal_def Let_def on_finished_emitted c
        MainWindow_on_image_not_modified_def MainWindow_on_batch_finished_def
        MetadataCache_save_def)
qed

theorem not_modified_writes_nothing_witness:
  "status (reply_304 6) = Some 304
   \<and> (\<exists>w'. finished_signal window_awaiting_6 (reply_304 6) = Inr w'
        \<and> frames w' = [6 \<mapsto> None]
        \<and> cache w' = Map.empty
        \<and> data (metadata w') = JObj []
        \<and> progress_unchanged w' = 1
        \<and> emitted (fetcher w') = [NotModified 6, ProgressChanged 1 1, BatchFinished])"
proof -
  have h: "status (reply_304 6) = Some 304"
    by (simp add: reply_304_def)
  from not_modified_writes_nothing [OF h, of window_awaiting_6] obtain w'
    where w': "finished_signal window_awaiting_6 (reply_304 6) = Inr w'"
      "frames w' = frames window_awaiting_6" "cache w' = cache window_awaiting_6"
      "data (metadata w') = data (metadata window_awaiting_6)"
      "progress_unchanged w' = progress_unchanged window_awaiting_6 + 1"
      "emitted (fetcher w') =
         emitted (fetcher window_awaiting_6) @ NotModified (reply_offset (reply_304 6))
           # ProgressChanged (n_done (fetcher window_awaiting_6) + 1)
               (n_total (fetcher window_awaiting_6))
           # (if n_done (fetcher window_awaiting_6) + 1 = n_total (fetcher window_awaiting_6)
              then [BatchFinished] else [])"
    by blast
  from w'(2-6) have
    "frames w' = [6 \<mapsto> None]" "cache w' = Map.empty" "data (metadata w') = JObj []"
    "progress_unchanged w' = 1"
    "emitted (fetcher w') = [NotModified 6, ProgressChanged 1 1, BatchFinished]"
    by (simp_all add: window_awaiting_6_def reply_304_def MetadataCache_init_def
        MetadataCache_load_def)
  with h w'(1) show ?thesis by blast
qed

end
